theory Spec2Isabelle
  imports Main "HOL-Library.Sublist" "HOL-Library.Monad_Syntax"
begin

section \<open>Kiosk shell: outputs and application-id affinity\<close>

text \<open>
  The development follows \<^verbatim>\<open>kiosk-shell/kiosk-shell.c\<close>. Pointers to objects are
  natural numbers; a pointer that may be \<^verbatim>\<open>NULL\<close> is an \<open>option\<close>. A C string
  is the list of its characters up to, and without, the terminating NUL. The structures
  are declared in \<^verbatim>\<open>kiosk-shell.h\<close>, which is not among the sources; the records have
  the fields that the functions of \<^verbatim>\<open>kiosk-shell.c\<close> read and write.
\<close>

type_synonym output_ref = nat
type_synonym surface_ref = nat
type_synonym dsurface_ref = nat
type_synonym view_ref = nat
type_synonym shsurf_ref = nat
type_synonym seat_ref = nat

text \<open>
  \<^verbatim>\<open>struct kiosk_shell_output\<close>: the compositor output it tracks and the string of
  the \<^verbatim>\<open>app-ids\<close> configuration key (\<^verbatim>\<open>NULL\<close> when the key is absent).
\<close>

record kiosk_shell_output =
  so_output :: "output_ref option"
  so_app_ids :: "string option"

subsection \<open>\<^verbatim>\<open>strstr\<close> and \<^verbatim>\<open>kiosk_shell_output_has_app_id\<close>\<close>

text \<open>
  \<open>strstr hay needle\<close> is the offset of the first occurrence of \<open>needle\<close> in
  \<open>hay\<close>, as the C library function returns it (offset \<open>0\<close> for an empty needle),
  and \<open>None\<close> for the C \<^verbatim>\<open>NULL\<close>.
\<close>

fun strstr :: "string \<Rightarrow> string \<Rightarrow> nat option" where
  "strstr [] needle = (if needle = [] then Some 0 else None)"
| "strstr (c # hay) needle =
     (if prefix needle (c # hay) then Some 0
      else map_option Suc (strstr hay needle))"

text \<open>
  \<open>char_at s i\<close> reads \<^verbatim>\<open>s[i]\<close> for \<open>i\<close> up to the terminator: \<open>None\<close> stands
  for the NUL byte at index \<open>length s\<close>.
\<close>

definition char_at :: "string \<Rightarrow> nat \<Rightarrow> char option" where
  "char_at s i = (if i < length s then Some (s ! i) else None)"

text \<open>
  The \<^verbatim>\<open>while ((cur = strstr(cur, app_id)))\<close> loop of
  \<^verbatim>\<open>kiosk_shell_output_has_app_id\<close>; \<open>cur\<close> is the offset of the C pointer
  \<^verbatim>\<open>cur\<close> from \<^verbatim>\<open>shoutput->app_ids\<close>. The result \<open>None\<close> means that the loop
  moved \<^verbatim>\<open>cur\<close> past the terminating NUL, where \<^verbatim>\<open>strstr\<close> reads out of bounds
  (this needs an empty \<^verbatim>\<open>app_id\<close>).
\<close>

function has_app_id_loop :: "string \<Rightarrow> string \<Rightarrow> nat \<Rightarrow> bool option" where
  "has_app_id_loop app_ids app_id cur =
     (if length app_ids < cur then None
      else case strstr (drop cur app_ids) app_id of
        None \<Rightarrow> Some False
      | Some k \<Rightarrow>
          (let p = cur + k in
           if (char_at app_ids (p + length app_id) = Some CHR '','' \<or>
               char_at app_ids (p + length app_id) = None) \<and>
              (p = 0 \<or> char_at app_ids (p - 1) = Some CHR '','')
           then Some True
           else has_app_id_loop app_ids app_id (p + 1)))"
  by pat_completeness auto
termination
  by (relation "measure (\<lambda>(app_ids, app_id, cur). Suc (length app_ids) - cur)") auto

declare has_app_id_loop.simps [simp del]

definition kiosk_shell_output_has_app_id :: "kiosk_shell_output \<Rightarrow> string \<Rightarrow> bool option" where
  "kiosk_shell_output_has_app_id shoutput app_id =
     (case so_app_ids shoutput of
        None \<Rightarrow> Some False
      | Some app_ids \<Rightarrow> has_app_id_loop app_ids app_id 0)"

text \<open>
  The matching rule in the words of the specification: the application identifier occurs
  at some offset \<open>p\<close> of the list, bounded on the left by the start of the string or a
  comma and on the right by a comma or the end of the string.
\<close>

definition occurs_at :: "string \<Rightarrow> string \<Rightarrow> nat \<Rightarrow> bool" where
  "occurs_at app_ids app_id p \<longleftrightarrow>
     p + length app_id \<le> length app_ids \<and>
     take (length app_id) (drop p app_ids) = app_id"

definition bounded_at :: "string \<Rightarrow> string \<Rightarrow> nat \<Rightarrow> bool" where
  "bounded_at app_ids app_id p \<longleftrightarrow>
     occurs_at app_ids app_id p \<and>
     (p = 0 \<or> app_ids ! (p - 1) = CHR '','') \<and>
     (p + length app_id = length app_ids \<or> app_ids ! (p + length app_id) = CHR '','')"

definition spec_token_match :: "string \<Rightarrow> string \<Rightarrow> bool" where
  "spec_token_match app_ids app_id \<longleftrightarrow>
     list_ex (bounded_at app_ids app_id) [0..<Suc (length app_ids)]"

text \<open>
  The tokens of a comma-separated list, for comparison with the rule above: the maximal
  comma-free pieces, in order.
\<close>

fun split_commas :: "string \<Rightarrow> string list" where
  "split_commas [] = [[]]"
| "split_commas (c # cs) =
     (if c = CHR '','' then [] # split_commas cs
      else (case split_commas cs of
              [] \<Rightarrow> [[c]]
            | t # ts \<Rightarrow> (c # t) # ts))"

section \<open>The shell state\<close>

text \<open>
  \<^verbatim>\<open>struct weston_output\<close>, as far as the shell reads it: the size that fullscreen
  and maximized surfaces are given.
\<close>

record weston_output =
  wo_width :: int
  wo_height :: int

text \<open>
  Modelled from the spec: the desktop-surface object of libweston-desktop, which is not
  part of the shell's source. It holds the application identifier, the association slot
  (\<^verbatim>\<open>user_data\<close>) and the values last commanded by \<^verbatim>\<open>set_fullscreen\<close>,
  \<^verbatim>\<open>set_maximized\<close>, \<^verbatim>\<open>set_size\<close> and \<^verbatim>\<open>set_activated\<close>.
\<close>

record weston_desktop_surface =
  ds_app_id :: "string option"
  ds_user_data :: "shsurf_ref option"
  ds_fullscreen :: bool
  ds_maximized :: bool
  ds_size :: "int \<times> int"
  ds_activated :: bool

text \<open>
  \<^verbatim>\<open>struct kiosk_shell_surface\<close>. \<open>ss_destroy_signal\<close> is the listener list of
  \<^verbatim>\<open>destroy_signal\<close>: the surfaces whose \<^verbatim>\<open>parent_destroy_listener\<close> is linked
  there, in the order of \<^verbatim>\<open>wl_signal_add\<close>. The two listener flags say whether the
  listener's \<^verbatim>\<open>notify\<close> is set. \<^verbatim>\<open>focus_count\<close> is a C \<^verbatim>\<open>int\<close>; it counts seats,
  so it is an unbounded integer here. The pointers to the desktop surface and to the
  view are set at creation and are not \<^verbatim>\<open>NULL\<close> while the record lives.
\<close>

record kiosk_shell_surface =
  ss_desktop_surface :: dsurface_ref
  ss_view :: view_ref
  ss_output :: "output_ref option"
  ss_parent :: "shsurf_ref option"
  ss_focus_count :: int
  ss_destroy_signal :: "shsurf_ref list"
  ss_output_destroy_listener :: bool
  ss_parent_destroy_listener :: bool

record kiosk_shell_seat =
  seat_focused_surface :: "surface_ref option"

text \<open>
  \<^verbatim>\<open>struct weston_view\<close> as an entry of a layer's view list: its address, whether it is
  mapped, and its surface.
\<close>

record weston_view =
  wv_ref :: view_ref
  wv_is_mapped :: bool
  wv_surface :: surface_ref

text \<open>The calls the shell makes on its collaborators, in program order.\<close>

datatype command =
    Set_fullscreen dsurface_ref bool
  | Set_maximized dsurface_ref bool
  | Set_size dsurface_ref int int
  | Set_activated dsurface_ref bool
  | Set_user_data dsurface_ref "shsurf_ref option"
  | Destroy_signal_emit shsurf_ref
  | Unlink_view view_ref
  | View_destroy view_ref
  | View_activate view_ref seat_ref
  | Post_no_memory
  | Log_no_memory

text \<open>
  \<^verbatim>\<open>struct kiosk_shell\<close> together with the compositor objects it reaches.
  \<open>surfaces\<close> is the store of the side records that the shell allocates and frees;
  objects owned by the compositor are total functions of their address.
  \<open>shseats\<close> is the lookup of \<^verbatim>\<open>get_kiosk_shell_seat\<close>, \<open>seat_list\<close> the seat
  list of the compositor, and \<open>commands\<close> the calls issued so far.
\<close>

text \<open>
  Modelled from the spec: \<open>focused_output\<close> and \<open>default_output\<close> are the results of
  \<^verbatim>\<open>get_focused_output\<close> and \<^verbatim>\<open>get_default_output\<close>, \<open>surface_desktop\<close> is
  \<^verbatim>\<open>weston_surface_get_desktop_surface\<close> and \<open>main_surface\<close> is
  \<^verbatim>\<open>weston_surface_get_main_surface\<close>; their code is outside the shell, and they
  are fields of the state.
\<close>

record kiosk_shell =
  surfaces :: "shsurf_ref \<rightharpoonup> kiosk_shell_surface"
  dsurfaces :: "dsurface_ref \<Rightarrow> weston_desktop_surface"
  outputs :: "output_ref \<Rightarrow> weston_output"
  output_list :: "kiosk_shell_output list"
  shseats :: "seat_ref \<rightharpoonup> kiosk_shell_seat"
  seat_list :: "seat_ref list"
  focused_output :: "output_ref option"
  default_output :: "output_ref option"
  surface_desktop :: "surface_ref \<Rightarrow> dsurface_ref option"
  main_surface :: "surface_ref \<Rightarrow> surface_ref"
  commands :: "command list"

text \<open>
  Functions of the shell return an \<open>option\<close>: \<open>None\<close> means that the C function has
  no result, because it does not terminate, fails an \<^verbatim>\<open>assert\<close>, or dereferences a
  pointer that holds no live side record.
\<close>

text \<open>
  Modelled from the spec: the calls on the desktop surface and on the view, which belong
  to libweston. A setter records its call and stores the value in the desktop surface;
  \<^verbatim>\<open>weston_view_activate\<close> (with flags \<open>0\<close>) records its call.
\<close>

definition issue :: "command \<Rightarrow> kiosk_shell \<Rightarrow> kiosk_shell" where
  "issue c s = s\<lparr>commands := commands s @ [c]\<rparr>"

definition upd_dsurface ::
  "dsurface_ref \<Rightarrow> (weston_desktop_surface \<Rightarrow> weston_desktop_surface) \<Rightarrow> kiosk_shell \<Rightarrow> kiosk_shell" where
  "upd_dsurface d f s = s\<lparr>dsurfaces := (dsurfaces s)(d := f (dsurfaces s d))\<rparr>"

definition weston_desktop_surface_set_fullscreen :: "dsurface_ref \<Rightarrow> bool \<Rightarrow> kiosk_shell \<Rightarrow> kiosk_shell" where
  "weston_desktop_surface_set_fullscreen d b s =
     issue (Set_fullscreen d b) (upd_dsurface d (\<lambda>x. x\<lparr>ds_fullscreen := b\<rparr>) s)"

definition weston_desktop_surface_set_maximized :: "dsurface_ref \<Rightarrow> bool \<Rightarrow> kiosk_shell \<Rightarrow> kiosk_shell" where
  "weston_desktop_surface_set_maximized d b s =
     issue (Set_maximized d b) (upd_dsurface d (\<lambda>x. x\<lparr>ds_maximized := b\<rparr>) s)"

definition weston_desktop_surface_set_size :: "dsurface_ref \<Rightarrow> int \<Rightarrow> int \<Rightarrow> kiosk_shell \<Rightarrow> kiosk_shell" where
  "weston_desktop_surface_set_size d w h s =
     issue (Set_size d w h) (upd_dsurface d (\<lambda>x. x\<lparr>ds_size := (w, h)\<rparr>) s)"

definition weston_desktop_surface_set_activated :: "dsurface_ref \<Rightarrow> bool \<Rightarrow> kiosk_shell \<Rightarrow> kiosk_shell" where
  "weston_desktop_surface_set_activated d b s =
     issue (Set_activated d b) (upd_dsurface d (\<lambda>x. x\<lparr>ds_activated := b\<rparr>) s)"

definition weston_desktop_surface_set_user_data ::
  "dsurface_ref \<Rightarrow> shsurf_ref option \<Rightarrow> kiosk_shell \<Rightarrow> kiosk_shell" where
  "weston_desktop_surface_set_user_data d u s =
     issue (Set_user_data d u) (upd_dsurface d (\<lambda>x. x\<lparr>ds_user_data := u\<rparr>) s)"

definition weston_view_activate :: "view_ref \<Rightarrow> kiosk_shell \<Rightarrow> seat_ref \<Rightarrow> kiosk_shell" where
  "weston_view_activate v s seat = issue (View_activate v seat) s"

text \<open>Reading and writing a side record through its pointer.\<close>

definition upd_surface ::
  "shsurf_ref \<Rightarrow> (kiosk_shell_surface \<Rightarrow> kiosk_shell_surface) \<Rightarrow> kiosk_shell \<Rightarrow> kiosk_shell option" where
  "upd_surface p f s =
     (case surfaces s p of
        None \<Rightarrow> None
      | Some r \<Rightarrow> Some (s\<lparr>surfaces := (surfaces s)(p \<mapsto> f r)\<rparr>))"

definition get_kiosk_shell_surface :: "kiosk_shell \<Rightarrow> surface_ref \<Rightarrow> shsurf_ref option" where
  "get_kiosk_shell_surface s surface =
     (case surface_desktop s surface of
        None \<Rightarrow> None
      | Some d \<Rightarrow> ds_user_data (dsurfaces s d))"

section \<open>Surfaces: parent chain, best output, placement\<close>

partial_function (option) kiosk_shell_surface_get_parent_root ::
  "(shsurf_ref \<rightharpoonup> kiosk_shell_surface) \<Rightarrow> shsurf_ref \<Rightarrow> shsurf_ref option" where
  "kiosk_shell_surface_get_parent_root h root =
     (case h root of
        None \<Rightarrow> None
      | Some r \<Rightarrow>
          (case ss_parent r of
             None \<Rightarrow> Some root
           | Some p \<Rightarrow> kiosk_shell_surface_get_parent_root h p))"

declare kiosk_shell_surface_get_parent_root.simps [code]

text \<open>
  The parent chain of \<open>p\<close> is finite and ends in the root \<open>r\<close>: the condition under
  which the walk above returns.
\<close>

inductive parent_chain :: "(shsurf_ref \<rightharpoonup> kiosk_shell_surface) \<Rightarrow> shsurf_ref \<Rightarrow> shsurf_ref \<Rightarrow> bool" where
  chain_root: "h p = Some x \<Longrightarrow> ss_parent x = None \<Longrightarrow> parent_chain h p p"
| chain_step: "h p = Some x \<Longrightarrow> ss_parent x = Some q \<Longrightarrow> parent_chain h q r \<Longrightarrow> parent_chain h p r"

text \<open>
  The \<^verbatim>\<open>wl_list_for_each\<close> over \<^verbatim>\<open>shell->output_list\<close> in
  \<^verbatim>\<open>kiosk_shell_surface_find_best_output\<close>: the first shell output whose list has the
  application identifier.
\<close>

fun output_list_scan :: "kiosk_shell_output list \<Rightarrow> string \<Rightarrow> kiosk_shell_output option option" where
  "output_list_scan [] app_id = Some None"
| "output_list_scan (shoutput # rest) app_id =
     (case kiosk_shell_output_has_app_id shoutput app_id of
        None \<Rightarrow> None
      | Some True \<Rightarrow> Some (Some shoutput)
      | Some False \<Rightarrow> output_list_scan rest app_id)"

definition kiosk_shell_surface_find_best_output :: "kiosk_shell \<Rightarrow> shsurf_ref \<Rightarrow> output_ref option option" where
  "kiosk_shell_surface_find_best_output s shsurf =
     (case surfaces s shsurf of
        None \<Rightarrow> None
      | Some x \<Rightarrow>
          (case ss_output x of
             Some out \<Rightarrow> Some (Some out)
           | None \<Rightarrow>
               (case (case ds_app_id (dsurfaces s (ss_desktop_surface x)) of
                        None \<Rightarrow> Some None
                      | Some app_id \<Rightarrow> output_list_scan (output_list s) app_id) of
                  None \<Rightarrow> None
                | Some (Some shoutput) \<Rightarrow> Some (so_output shoutput)
                | Some None \<Rightarrow>
                    (case kiosk_shell_surface_get_parent_root (surfaces s) shsurf of
                       None \<Rightarrow> None
                     | Some root \<Rightarrow>
                         (case surfaces s root of
                            None \<Rightarrow> None
                          | Some y \<Rightarrow>
                              (case ss_output y of
                                 Some out \<Rightarrow> Some (Some out)
                               | None \<Rightarrow>
                                   (case focused_output s of
                                      Some out \<Rightarrow> Some (Some out)
                                    | None \<Rightarrow>
                                        (case default_output s of
                                           Some out \<Rightarrow> Some (Some out)
                                         | None \<Rightarrow> Some None))))))))"

text \<open>
  \<^verbatim>\<open>kiosk_shell_surface_set_output\<close>. The listener's link is in the destroy signal of
  the output, an object of the compositor; the model keeps whether \<^verbatim>\<open>notify\<close> is set.
\<close>

definition kiosk_shell_surface_set_output ::
  "shsurf_ref \<Rightarrow> output_ref option \<Rightarrow> kiosk_shell \<Rightarrow> kiosk_shell option" where
  "kiosk_shell_surface_set_output shsurf out s =
     upd_surface shsurf
       (\<lambda>x. let x1 = x\<lparr>ss_output := out\<rparr>;
                x2 = (if ss_output_destroy_listener x1
                      then x1\<lparr>ss_output_destroy_listener := False\<rparr> else x1)
            in if ss_output x2 = None then x2
               else x2\<lparr>ss_output_destroy_listener := True\<rparr>) s"

text \<open>
  The tail shared by \<^verbatim>\<open>set_fullscreen\<close> and \<^verbatim>\<open>set_maximized\<close>:
  \<^verbatim>\<open>if (shsurf->output) weston_desktop_surface_set_size(..., width, height)\<close>.
\<close>

definition size_to_output :: "shsurf_ref \<Rightarrow> kiosk_shell \<Rightarrow> kiosk_shell option" where
  "size_to_output shsurf s =
     (case surfaces s shsurf of
        None \<Rightarrow> None
      | Some x \<Rightarrow>
          (case ss_output x of
             None \<Rightarrow> Some s
           | Some out \<Rightarrow>
               Some (weston_desktop_surface_set_size (ss_desktop_surface x)
                       (wo_width (outputs s out)) (wo_height (outputs s out)) s)))"

definition kiosk_shell_surface_set_fullscreen ::
  "shsurf_ref \<Rightarrow> output_ref option \<Rightarrow> kiosk_shell \<Rightarrow> kiosk_shell option" where
  "kiosk_shell_surface_set_fullscreen shsurf output s =
     do {
       out \<leftarrow> (case output of
                 None \<Rightarrow> kiosk_shell_surface_find_best_output s shsurf
               | Some out \<Rightarrow> Some (Some out));
       s1 \<leftarrow> kiosk_shell_surface_set_output shsurf out s;
       x \<leftarrow> surfaces s1 shsurf;
       size_to_output shsurf
         (weston_desktop_surface_set_fullscreen (ss_desktop_surface x) True s1)
     }"

definition kiosk_shell_surface_set_maximized :: "shsurf_ref \<Rightarrow> kiosk_shell \<Rightarrow> kiosk_shell option" where
  "kiosk_shell_surface_set_maximized shsurf s =
     do {
       out \<leftarrow> kiosk_shell_surface_find_best_output s shsurf;
       s1 \<leftarrow> kiosk_shell_surface_set_output shsurf out s;
       x \<leftarrow> surfaces s1 shsurf;
       size_to_output shsurf
         (weston_desktop_surface_set_maximized (ss_desktop_surface x) True s1)
     }"

definition kiosk_shell_surface_set_normal :: "shsurf_ref \<Rightarrow> kiosk_shell \<Rightarrow> kiosk_shell option" where
  "kiosk_shell_surface_set_normal shsurf s =
     do {
       x \<leftarrow> surfaces s shsurf;
       s1 \<leftarrow> (if ss_output x = None
              then do {
                out \<leftarrow> kiosk_shell_surface_find_best_output s shsurf;
                kiosk_shell_surface_set_output shsurf out s
              }
              else Some s);
       Some (weston_desktop_surface_set_size (ss_desktop_surface x) 0 0
              (weston_desktop_surface_set_maximized (ss_desktop_surface x) False
                (weston_desktop_surface_set_fullscreen (ss_desktop_surface x) False s1)))
     }"

text \<open>
  \<^verbatim>\<open>wl_list_remove(&shsurf->parent_destroy_listener.link)\<close> with the reset of
  \<^verbatim>\<open>notify\<close>: the link is in the destroy signal of \<^verbatim>\<open>shsurf->parent\<close>, where
  \<^verbatim>\<open>kiosk_shell_surface_set_parent\<close> put it.
\<close>

definition parent_listener_remove :: "shsurf_ref \<Rightarrow> kiosk_shell \<Rightarrow> kiosk_shell option" where
  "parent_listener_remove shsurf s =
     do {
       x \<leftarrow> surfaces s shsurf;
       p \<leftarrow> ss_parent x;
       s1 \<leftarrow> upd_surface p (\<lambda>y. y\<lparr>ss_destroy_signal := remove1 shsurf (ss_destroy_signal y)\<rparr>) s;
       upd_surface shsurf (\<lambda>y. y\<lparr>ss_parent_destroy_listener := False\<rparr>) s1
     }"

definition kiosk_shell_surface_set_parent ::
  "shsurf_ref \<Rightarrow> shsurf_ref option \<Rightarrow> kiosk_shell \<Rightarrow> kiosk_shell option" where
  "kiosk_shell_surface_set_parent shsurf parent s =
     do {
       x \<leftarrow> surfaces s shsurf;
       s1 \<leftarrow> (if ss_parent_destroy_listener x then parent_listener_remove shsurf s else Some s);
       s2 \<leftarrow> upd_surface shsurf (\<lambda>y. y\<lparr>ss_parent := parent\<rparr>) s1;
       (case parent of
          Some p \<Rightarrow>
            do {
              s3 \<leftarrow> upd_surface shsurf (\<lambda>y. y\<lparr>ss_parent_destroy_listener := True\<rparr>) s2;
              s4 \<leftarrow> upd_surface p (\<lambda>y. y\<lparr>ss_destroy_signal := ss_destroy_signal y @ [shsurf]\<rparr>) s3;
              s5 \<leftarrow> kiosk_shell_surface_set_output shsurf None s4;
              kiosk_shell_surface_set_normal shsurf s5
            }
        | None \<Rightarrow>
            do {
              y \<leftarrow> surfaces s2 shsurf;
              kiosk_shell_surface_set_fullscreen shsurf (ss_output y) s2
            })
     }"

text \<open>
  \<^verbatim>\<open>kiosk_shell_surface_notify_parent_destroy\<close> for the listener of surface
  \<open>shsurf\<close>, and the emission of a destroy signal to the listeners on it. The emission
  walks the list as it is when the emission starts; \<^verbatim>\<open>wl_signal_emit\<close> does the same
  as long as a handler unlinks only its own listener from the list being walked.
\<close>

definition kiosk_shell_surface_notify_parent_destroy :: "shsurf_ref \<Rightarrow> kiosk_shell \<Rightarrow> kiosk_shell option" where
  "kiosk_shell_surface_notify_parent_destroy shsurf s =
     do {
       x \<leftarrow> surfaces s shsurf;
       p \<leftarrow> ss_parent x;
       y \<leftarrow> surfaces s p;
       kiosk_shell_surface_set_parent shsurf (ss_parent y) s
     }"

fun wl_signal_emit :: "shsurf_ref list \<Rightarrow> kiosk_shell \<Rightarrow> kiosk_shell option" where
  "wl_signal_emit [] s = Some s"
| "wl_signal_emit (l # ls) s =
     (case kiosk_shell_surface_notify_parent_destroy l s of
        None \<Rightarrow> None
      | Some s1 \<Rightarrow> wl_signal_emit ls s1)"

text \<open>
  \<^verbatim>\<open>kiosk_shell_surface_destroy\<close>, split at the end of the emission.
  \<open>destroy_emit\<close> is the first statement, \<^verbatim>\<open>wl_signal_emit(&shsurf->destroy_signal, shsurf)\<close>;
  \<open>destroy_teardown\<close> is the rest, ending with \<^verbatim>\<open>free(shsurf)\<close>; the store of
  \<^verbatim>\<open>NULL\<close> into \<^verbatim>\<open>shsurf->desktop_surface\<close> just before is into the record that is
  freed. The calls on the view are issued as commands. A surface that is its own parent
  puts its listener back on the list being walked and is left out (\<open>None\<close>).
\<close>

definition destroy_emit :: "shsurf_ref \<Rightarrow> kiosk_shell \<Rightarrow> kiosk_shell option" where
  "destroy_emit shsurf s =
     (case surfaces s shsurf of
        None \<Rightarrow> None
      | Some x \<Rightarrow>
          if ss_parent x = Some shsurf then None
          else wl_signal_emit (ss_destroy_signal x) (issue (Destroy_signal_emit shsurf) s))"

definition destroy_teardown :: "shsurf_ref \<Rightarrow> kiosk_shell \<Rightarrow> kiosk_shell option" where
  "destroy_teardown shsurf s =
     do {
       x \<leftarrow> surfaces s shsurf;
       s1 \<leftarrow> Some (weston_desktop_surface_set_user_data (ss_desktop_surface x) None s);
       s2 \<leftarrow> Some (issue (View_destroy (ss_view x)) (issue (Unlink_view (ss_view x)) s1));
       s3 \<leftarrow> (if ss_output_destroy_listener x
              then upd_surface shsurf (\<lambda>y. y\<lparr>ss_output_destroy_listener := False\<rparr>) s2
              else Some s2);
       s4 \<leftarrow> (if ss_parent_destroy_listener x
              then do {
                t \<leftarrow> parent_listener_remove shsurf s3;
                upd_surface shsurf (\<lambda>y. y\<lparr>ss_parent := None\<rparr>) t
              }
              else Some s3);
       Some (s4\<lparr>surfaces := (surfaces s4)(shsurf := None)\<rparr>)
     }"

definition kiosk_shell_surface_destroy :: "shsurf_ref \<Rightarrow> kiosk_shell \<Rightarrow> kiosk_shell option" where
  "kiosk_shell_surface_destroy shsurf s =
     do {
       s1 \<leftarrow> destroy_emit shsurf s;
       destroy_teardown shsurf s1
     }"

text \<open>
  \<^verbatim>\<open>kiosk_shell_surface_create\<close>. The results of
  \<^verbatim>\<open>weston_desktop_surface_create_view\<close> and of \<^verbatim>\<open>zalloc\<close> are inputs
  (\<open>None\<close> for \<^verbatim>\<open>NULL\<close>), and so is whether the surface has a client.
  The new record is zeroed apart from the two pointers.
\<close>

definition kiosk_shell_surface_create ::
  "dsurface_ref \<Rightarrow> view_ref option \<Rightarrow> shsurf_ref option \<Rightarrow> bool \<Rightarrow> kiosk_shell
     \<Rightarrow> kiosk_shell \<times> shsurf_ref option" where
  "kiosk_shell_surface_create desktop_surface new_view new_shsurf wl_client s =
     (case new_view of
        None \<Rightarrow> (s, None)
      | Some view \<Rightarrow>
          (case new_shsurf of
             None \<Rightarrow> (issue (if wl_client then Post_no_memory else Log_no_memory) s, None)
           | Some shsurf \<Rightarrow>
               (weston_desktop_surface_set_user_data desktop_surface (Some shsurf)
                  (s\<lparr>surfaces := (surfaces s)(shsurf \<mapsto>
                       \<lparr>ss_desktop_surface = desktop_surface, ss_view = view,
                        ss_output = None, ss_parent = None, ss_focus_count = 0,
                        ss_destroy_signal = [], ss_output_destroy_listener = False,
                        ss_parent_destroy_listener = False\<rparr>)\<rparr>),
                Some shsurf)))"

section \<open>Seats\<close>

text \<open>
  \<^verbatim>\<open>kiosk_shell_seat_handle_keyboard_focus\<close> for the keyboard of \<open>seat\<close> whose
  \<^verbatim>\<open>focus\<close> is \<open>focus\<close>. \<open>focus_leave\<close> is the first \<^verbatim>\<open>if\<close> block and
  \<open>focus_enter\<close> the second.
\<close>

definition focus_leave :: "surface_ref option \<Rightarrow> kiosk_shell \<Rightarrow> kiosk_shell option" where
  "focus_leave focused_surface s =
     (case focused_surface of
        None \<Rightarrow> Some s
      | Some surface \<Rightarrow>
          (case get_kiosk_shell_surface s surface of
             None \<Rightarrow> Some s
           | Some shsurf \<Rightarrow>
               (case surfaces s shsurf of
                  None \<Rightarrow> None
                | Some x \<Rightarrow>
                    (let s1 = s\<lparr>surfaces := (surfaces s)(shsurf \<mapsto>
                                  x\<lparr>ss_focus_count := ss_focus_count x - 1\<rparr>)\<rparr>
                     in if ss_focus_count x - 1 = 0
                        then Some (weston_desktop_surface_set_activated (ss_desktop_surface x) False s1)
                        else Some s1))))"

definition focus_enter :: "surface_ref option \<Rightarrow> kiosk_shell \<Rightarrow> kiosk_shell option" where
  "focus_enter focused_surface s =
     (case focused_surface of
        None \<Rightarrow> Some s
      | Some surface \<Rightarrow>
          (case get_kiosk_shell_surface s surface of
             None \<Rightarrow> Some s
           | Some shsurf \<Rightarrow>
               (case surfaces s shsurf of
                  None \<Rightarrow> None
                | Some x \<Rightarrow>
                    (let s1 = s\<lparr>surfaces := (surfaces s)(shsurf \<mapsto>
                                  x\<lparr>ss_focus_count := ss_focus_count x + 1\<rparr>)\<rparr>
                     in if ss_focus_count x = 0
                        then Some (weston_desktop_surface_set_activated (ss_desktop_surface x) True s1)
                        else Some s1))))"

definition kiosk_shell_seat_handle_keyboard_focus ::
  "seat_ref \<Rightarrow> surface_ref option \<Rightarrow> kiosk_shell \<Rightarrow> kiosk_shell option" where
  "kiosk_shell_seat_handle_keyboard_focus seat focus s =
     (case shseats s seat of
        None \<Rightarrow> None
      | Some shseat \<Rightarrow>
          do {
            s1 \<leftarrow> focus_leave (seat_focused_surface shseat) s;
            let focused = map_option (main_surface s1) focus;
            focus_enter focused
              (s1\<lparr>shseats := (shseats s1)(seat \<mapsto> shseat\<lparr>seat_focused_surface := focused\<rparr>)\<rparr>)
          })"

text \<open>A sequence of keyboard-focus events, each a seat and the surface its keyboard now focuses.\<close>

fun focus_events :: "(seat_ref \<times> surface_ref option) list \<Rightarrow> kiosk_shell \<Rightarrow> kiosk_shell option" where
  "focus_events [] s = Some s"
| "focus_events ((seat, focus) # evs) s =
     (case kiosk_shell_seat_handle_keyboard_focus seat focus s of
        None \<Rightarrow> None
      | Some s1 \<Rightarrow> focus_events evs s1)"

text \<open>The window that a seat's recorded focused surface resolves to, and the seats on a window.\<close>

definition seat_window :: "kiosk_shell \<Rightarrow> seat_ref \<Rightarrow> shsurf_ref option" where
  "seat_window s seat =
     (case shseats s seat of
        None \<Rightarrow> None
      | Some shseat \<Rightarrow>
          (case seat_focused_surface shseat of
             None \<Rightarrow> None
           | Some surface \<Rightarrow> get_kiosk_shell_surface s surface))"

definition seats_on :: "kiosk_shell \<Rightarrow> shsurf_ref \<Rightarrow> seat_ref set" where
  "seats_on s w = {seat. seat_window s seat = Some w}"

section \<open>Handlers of the desktop API\<close>

definition desktop_surface_added ::
  "dsurface_ref \<Rightarrow> view_ref option \<Rightarrow> shsurf_ref option \<Rightarrow> bool \<Rightarrow> kiosk_shell \<Rightarrow> kiosk_shell option" where
  "desktop_surface_added desktop_surface new_view new_shsurf wl_client s =
     (case kiosk_shell_surface_create desktop_surface new_view new_shsurf wl_client s of
        (s1, None) \<Rightarrow> Some s1
      | (s1, Some shsurf) \<Rightarrow>
          do {
            s2 \<leftarrow> kiosk_shell_surface_set_fullscreen shsurf None s1;
            x \<leftarrow> surfaces s2 shsurf;
            Some (foldl (weston_view_activate (ss_view x)) s2 (seat_list s2))
          })"

text \<open>
  The \<^verbatim>\<open>wl_list_for_each\<close> of \<^verbatim>\<open>find_focus_successor\<close> over the views of the
  layer, with the local \<^verbatim>\<open>top_view\<close> as an argument.
\<close>

fun focus_successor_loop ::
  "kiosk_shell \<Rightarrow> view_ref \<Rightarrow> shsurf_ref \<Rightarrow> weston_view list \<Rightarrow> view_ref option \<Rightarrow> view_ref option option" where
  "focus_successor_loop s shsurf_view parent_root [] top_view = Some top_view"
| "focus_successor_loop s shsurf_view parent_root (view # rest) top_view =
     (if \<not> wv_is_mapped view \<or> wv_ref view = shsurf_view
      then focus_successor_loop s shsurf_view parent_root rest top_view
      else case get_kiosk_shell_surface s (wv_surface view) of
        None \<Rightarrow> focus_successor_loop s shsurf_view parent_root rest top_view
      | Some view_shsurf \<Rightarrow>
          (let top_view1 = (if top_view = None then Some (wv_ref view) else top_view) in
           case kiosk_shell_surface_get_parent_root (surfaces s) view_shsurf of
             None \<Rightarrow> None
           | Some root \<Rightarrow>
               if root = parent_root then Some (Some (wv_ref view))
               else focus_successor_loop s shsurf_view parent_root rest top_view1))"

definition find_focus_successor :: "kiosk_shell \<Rightarrow> weston_view list \<Rightarrow> shsurf_ref \<Rightarrow> view_ref option option" where
  "find_focus_successor s layer shsurf =
     (case kiosk_shell_surface_get_parent_root (surfaces s) shsurf of
        None \<Rightarrow> None
      | Some parent_root \<Rightarrow>
          (case surfaces s shsurf of
             None \<Rightarrow> None
           | Some x \<Rightarrow> focus_successor_loop s (ss_view x) parent_root layer None))"

definition desktop_surface_set_parent ::
  "dsurface_ref \<Rightarrow> dsurface_ref option \<Rightarrow> kiosk_shell \<Rightarrow> kiosk_shell option" where
  "desktop_surface_set_parent desktop_surface parent s =
     (case ds_user_data (dsurfaces s desktop_surface) of
        None \<Rightarrow> None
      | Some shsurf \<Rightarrow>
          kiosk_shell_surface_set_parent shsurf
            (case parent of None \<Rightarrow> None | Some d \<Rightarrow> ds_user_data (dsurfaces s d)) s)"

definition desktop_surface_fullscreen_requested ::
  "dsurface_ref \<Rightarrow> bool \<Rightarrow> output_ref option \<Rightarrow> kiosk_shell \<Rightarrow> kiosk_shell option" where
  "desktop_surface_fullscreen_requested desktop_surface fullscreen output s =
     (case ds_user_data (dsurfaces s desktop_surface) of
        None \<Rightarrow> None
      | Some shsurf \<Rightarrow>
          (case surfaces s shsurf of
             None \<Rightarrow> None
           | Some x \<Rightarrow>
               if ss_parent x = None \<or> fullscreen
               then kiosk_shell_surface_set_fullscreen shsurf output s
               else kiosk_shell_surface_set_normal shsurf s))"

definition desktop_surface_maximized_requested ::
  "dsurface_ref \<Rightarrow> bool \<Rightarrow> kiosk_shell \<Rightarrow> kiosk_shell option" where
  "desktop_surface_maximized_requested desktop_surface maximized s =
     (case ds_user_data (dsurfaces s desktop_surface) of
        None \<Rightarrow> None
      | Some shsurf \<Rightarrow>
          (case surfaces s shsurf of
             None \<Rightarrow> None
           | Some x \<Rightarrow>
               if ss_parent x = None then kiosk_shell_surface_set_fullscreen shsurf None s
               else if maximized then kiosk_shell_surface_set_maximized shsurf s
               else kiosk_shell_surface_set_normal shsurf s))"

text \<open>
  Modelled from the spec: the placement of a window, one of Normal, Maximized and
  Fullscreen, read off the two flags of its desktop surface.
\<close>

datatype placement = Normal | Maximized | Fullscreen

definition placement_of :: "kiosk_shell \<Rightarrow> kiosk_shell_surface \<Rightarrow> placement" where
  "placement_of s x =
     (if ds_fullscreen (dsurfaces s (ss_desktop_surface x)) then Fullscreen
      else if ds_maximized (dsurfaces s (ss_desktop_surface x)) then Maximized
      else Normal)"

text \<open>
  The first registered output whose affinity list has the application identifier of the
  window's desktop surface, in the words of the specification.
\<close>

definition affinity_output :: "kiosk_shell \<Rightarrow> kiosk_shell_surface \<Rightarrow> kiosk_shell_output option" where
  "affinity_output s x =
     (case ds_app_id (dsurfaces s (ss_desktop_surface x)) of
        None \<Rightarrow> None
      | Some app_id \<Rightarrow>
          find (\<lambda>shoutput. kiosk_shell_output_has_app_id shoutput app_id = Some True)
            (output_list s))"

section \<open>Notions used in the statements\<close>

text \<open>
  The state after \<^verbatim>\<open>kiosk_shell_surface_set_output\<close> has bound window \<open>p\<close>, whose
  record was \<open>x\<close>, to \<open>out\<close>; the optional \<^verbatim>\<open>set_size\<close> to the size of an output;
  and the three calls that end \<^verbatim>\<open>kiosk_shell_surface_set_normal\<close>.
\<close>

definition rebound :: "shsurf_ref \<Rightarrow> kiosk_shell_surface \<Rightarrow> output_ref option \<Rightarrow> kiosk_shell \<Rightarrow> kiosk_shell" where
  "rebound p x out s =
     s\<lparr>surfaces := (surfaces s)(p \<mapsto>
       x\<lparr>ss_output := out, ss_output_destroy_listener := (out \<noteq> None)\<rparr>)\<rparr>"

definition sized :: "dsurface_ref \<Rightarrow> output_ref option \<Rightarrow> kiosk_shell \<Rightarrow> kiosk_shell" where
  "sized d out s =
     (case out of
        None \<Rightarrow> s
      | Some output \<Rightarrow>
          weston_desktop_surface_set_size d
            (wo_width (outputs s output)) (wo_height (outputs s output)) s)"

definition normal_commands :: "dsurface_ref \<Rightarrow> kiosk_shell \<Rightarrow> kiosk_shell" where
  "normal_commands d s =
     weston_desktop_surface_set_size d 0 0
       (weston_desktop_surface_set_maximized d False
         (weston_desktop_surface_set_fullscreen d False s))"

definition normal_trace :: "dsurface_ref \<Rightarrow> command list" where
  "normal_trace d = [Set_fullscreen d False, Set_maximized d False, Set_size d 0 0]"

text \<open>
  The parent and the placement of window \<open>p\<close> in the result of an operation, the
  output the window is bound to there (\<^verbatim>\<open>shsurf->output\<close>), and the commands the
  operation has issued.
\<close>

definition window_state :: "kiosk_shell option \<Rightarrow> shsurf_ref \<Rightarrow> (shsurf_ref option \<times> placement) option" where
  "window_state r p =
     (case r of
        None \<Rightarrow> None
      | Some s \<Rightarrow>
          (case surfaces s p of
             None \<Rightarrow> None
           | Some x \<Rightarrow> Some (ss_parent x, placement_of s x)))"

definition bound_output :: "kiosk_shell option \<Rightarrow> shsurf_ref \<Rightarrow> output_ref option option" where
  "bound_output r p =
     (case r of
        None \<Rightarrow> None
      | Some s \<Rightarrow> map_option ss_output (surfaces s p))"

definition issued :: "kiosk_shell option \<Rightarrow> command list option" where
  "issued r = map_option commands r"

text \<open>
  The invariant of the specification, that no window with a parent is fullscreen, and
  the condition that every desktop surface belongs to one side record only.
\<close>

definition child_not_fullscreen :: "kiosk_shell \<Rightarrow> bool" where
  "child_not_fullscreen s \<longleftrightarrow>
     (\<forall>p x. surfaces s p = Some x \<and> ss_parent x \<noteq> None \<longrightarrow> placement_of s x \<noteq> Fullscreen)"

definition ds_unshared :: "kiosk_shell \<Rightarrow> bool" where
  "ds_unshared s \<longleftrightarrow>
     (\<forall>p q x y. surfaces s p = Some x \<and> surfaces s q = Some y \<and>
        ss_desktop_surface x = ss_desktop_surface y \<longrightarrow> p = q)"

text \<open>
  What an operation on the placement or the parent of window \<open>p\<close> leaves alone: the
  desktop surface and the view of every record, the parent of every other window, every
  desktop surface but the one of \<open>p\<close>, the association slot and the application
  identifier of all of them, and the commands issued before.
\<close>

definition placement_frame :: "shsurf_ref \<Rightarrow> kiosk_shell \<Rightarrow> kiosk_shell \<Rightarrow> bool" where
  "placement_frame p s s' \<longleftrightarrow>
     (\<forall>q. map_option ss_desktop_surface (surfaces s' q) = map_option ss_desktop_surface (surfaces s q)) \<and>
     (\<forall>q. map_option ss_view (surfaces s' q) = map_option ss_view (surfaces s q)) \<and>
     (\<forall>q. q \<noteq> p \<longrightarrow> map_option ss_parent (surfaces s' q) = map_option ss_parent (surfaces s q)) \<and>
     (\<forall>e. (\<forall>x. surfaces s p = Some x \<longrightarrow> e \<noteq> ss_desktop_surface x) \<longrightarrow>
          dsurfaces s' e = dsurfaces s e) \<and>
     (\<forall>e. ds_user_data (dsurfaces s' e) = ds_user_data (dsurfaces s e)) \<and>
     (\<forall>e. ds_app_id (dsurfaces s' e) = ds_app_id (dsurfaces s e)) \<and>
     (\<exists>cs. commands s' = commands s @ cs)"

text \<open>
  The window that a surface (or none) resolves to; the invariant of the specification
  on focus counts, for finitely many seats; the state in which no seat has a focus and
  all counts are zero; and the condition that every association leads to a live side
  record.
\<close>

definition focused_window :: "kiosk_shell \<Rightarrow> surface_ref option \<Rightarrow> shsurf_ref option" where
  "focused_window s focused_surface =
     (case focused_surface of
        None \<Rightarrow> None
      | Some surface \<Rightarrow> get_kiosk_shell_surface s surface)"

definition focus_counted :: "kiosk_shell \<Rightarrow> bool" where
  "focus_counted s \<longleftrightarrow>
     finite (dom (shseats s)) \<and>
     (\<forall>w x. surfaces s w = Some x \<longrightarrow> ss_focus_count x = int (card (seats_on s w)))"

definition unfocused :: "kiosk_shell \<Rightarrow> bool" where
  "unfocused s \<longleftrightarrow>
     (\<forall>seat shseat. shseats s seat = Some shseat \<longrightarrow> seat_focused_surface shseat = None) \<and>
     (\<forall>w x. surfaces s w = Some x \<longrightarrow> ss_focus_count x = 0)"

definition association_live :: "kiosk_shell \<Rightarrow> bool" where
  "association_live s \<longleftrightarrow>
     (\<forall>d w. ds_user_data (dsurfaces s d) = Some w \<longrightarrow> surfaces s w \<noteq> None)"

text \<open>
  The commands of a keyboard-focus event, from the window \<open>old\<close> that the seat's
  previous focus resolves to and the window \<open>new\<close> of its new focus: a deactivation
  when the count of \<open>old\<close> is one, and an activation when the count of \<open>new\<close>,
  after the decrement, is zero.
\<close>

definition deactivation :: "kiosk_shell \<Rightarrow> shsurf_ref option \<Rightarrow> command list" where
  "deactivation s old =
     (case old of
        None \<Rightarrow> []
      | Some w \<Rightarrow>
          (case surfaces s w of
             None \<Rightarrow> []
           | Some x \<Rightarrow>
               if ss_focus_count x = 1 then [Set_activated (ss_desktop_surface x) False] else []))"

definition activation :: "kiosk_shell \<Rightarrow> shsurf_ref option \<Rightarrow> shsurf_ref option \<Rightarrow> command list" where
  "activation s old new =
     (case new of
        None \<Rightarrow> []
      | Some w \<Rightarrow>
          (case surfaces s w of
             None \<Rightarrow> []
           | Some x \<Rightarrow>
               if ss_focus_count x - (if old = Some w then 1 else 0) = 0
               then [Set_activated (ss_desktop_surface x) True] else []))"

text \<open>
  The selection of the focus successor in the words of the specification. A view is
  eligible when it is mapped, is not the view of the removed window and has a side
  record; the successor is the first eligible view with the root of the removed window,
  or else the first eligible view, or none.
\<close>

definition eligible :: "kiosk_shell \<Rightarrow> view_ref \<Rightarrow> weston_view \<Rightarrow> bool" where
  "eligible s shsurf_view view \<longleftrightarrow>
     wv_is_mapped view \<and> wv_ref view \<noteq> shsurf_view \<and>
     get_kiosk_shell_surface s (wv_surface view) \<noteq> None"

definition view_root :: "kiosk_shell \<Rightarrow> weston_view \<Rightarrow> shsurf_ref option" where
  "view_root s view =
     (case get_kiosk_shell_surface s (wv_surface view) of
        None \<Rightarrow> None
      | Some view_shsurf \<Rightarrow> kiosk_shell_surface_get_parent_root (surfaces s) view_shsurf)"

definition spec_focus_successor ::
  "kiosk_shell \<Rightarrow> weston_view list \<Rightarrow> view_ref \<Rightarrow> shsurf_ref \<Rightarrow> view_ref option" where
  "spec_focus_successor s layer shsurf_view parent_root =
     (case find (\<lambda>view. view_root s view = Some parent_root)
             (filter (eligible s shsurf_view) layer) of
        Some view \<Rightarrow> Some (wv_ref view)
      | None \<Rightarrow>
          (case filter (eligible s shsurf_view) layer of
             [] \<Rightarrow> None
           | view # _ \<Rightarrow> Some (wv_ref view)))"

definition roots_defined :: "kiosk_shell \<Rightarrow> weston_view list \<Rightarrow> view_ref \<Rightarrow> bool" where
  "roots_defined s layer shsurf_view \<longleftrightarrow>
     (\<forall>view\<in>set layer. eligible s shsurf_view view \<longrightarrow> view_root s view \<noteq> None)"

text \<open>
  The states in which \<^verbatim>\<open>wl_signal_emit\<close> invokes the listeners of a list, one after the
  other, and what the listeners of the destroy signal of window \<open>p\<close> find in the
  association slot of its desktop surface when \<^verbatim>\<open>kiosk_shell_surface_destroy\<close> emits
  the signal.
\<close>

fun emit_states :: "shsurf_ref list \<Rightarrow> kiosk_shell \<Rightarrow> kiosk_shell list" where
  "emit_states [] s = []"
| "emit_states (l # ls) s =
     s # (case kiosk_shell_surface_notify_parent_destroy l s of
            None \<Rightarrow> []
          | Some s1 \<Rightarrow> emit_states ls s1)"

definition association_seen :: "shsurf_ref \<Rightarrow> kiosk_shell \<Rightarrow> shsurf_ref option list" where
  "association_seen p s =
     (case surfaces s p of
        None \<Rightarrow> []
      | Some x \<Rightarrow>
          map (\<lambda>t. ds_user_data (dsurfaces t (ss_desktop_surface x)))
            (emit_states (ss_destroy_signal x) (issue (Destroy_signal_emit p) s)))"

text \<open>What every operation on placements and parents leaves alone, whatever the window.\<close>

definition identity_frame :: "kiosk_shell \<Rightarrow> kiosk_shell \<Rightarrow> bool" where
  "identity_frame s s' \<longleftrightarrow>
     (\<forall>q. map_option ss_desktop_surface (surfaces s' q) = map_option ss_desktop_surface (surfaces s q)) \<and>
     (\<forall>q. map_option ss_view (surfaces s' q) = map_option ss_view (surfaces s q)) \<and>
     (\<forall>e. ds_user_data (dsurfaces s' e) = ds_user_data (dsurfaces s e)) \<and>
     (\<exists>cs. commands s' = commands s @ cs)"

section \<open>A concrete shell\<close>

text \<open>
  Two outputs; output 2 is configured for \<open>kiosk-app\<close>. Window 10 is a root, fullscreen
  on output 1; window 11 is its child, in normal state and without an output. A window's
  surface, desktop surface and view have the window's number. Seat 0 focuses window 10.
  Desktop surface 12, of application \<open>kiosk-app\<close>, has no side record yet.
\<close>

definition no_dsurface :: weston_desktop_surface where
  "no_dsurface = \<lparr>ds_app_id = None, ds_user_data = None, ds_fullscreen = False,
     ds_maximized = False, ds_size = (0, 0), ds_activated = False\<rparr>"

definition ex_root :: kiosk_shell_surface where
  "ex_root = \<lparr>ss_desktop_surface = 10, ss_view = 10, ss_output = Some 1, ss_parent = None,
     ss_focus_count = 1, ss_destroy_signal = [11], ss_output_destroy_listener = True,
     ss_parent_destroy_listener = False\<rparr>"

definition ex_child :: kiosk_shell_surface where
  "ex_child = \<lparr>ss_desktop_surface = 11, ss_view = 11, ss_output = None, ss_parent = Some 10,
     ss_focus_count = 0, ss_destroy_signal = [], ss_output_destroy_listener = False,
     ss_parent_destroy_listener = True\<rparr>"

definition ex_shell :: kiosk_shell where
  "ex_shell = \<lparr>
     surfaces = [10 \<mapsto> ex_root, 11 \<mapsto> ex_child],
     dsurfaces = (\<lambda>d.
       if d = 10 then no_dsurface\<lparr>ds_app_id := Some ''vlc'', ds_user_data := Some 10,
         ds_fullscreen := True, ds_size := (1920, 1080), ds_activated := True\<rparr>
       else if d = 11 then no_dsurface\<lparr>ds_app_id := Some ''dialog'', ds_user_data := Some 11\<rparr>
       else if d = 12 then no_dsurface\<lparr>ds_app_id := Some ''kiosk-app''\<rparr>
       else no_dsurface),
     outputs = (\<lambda>out. if out = 1 then \<lparr>wo_width = 1920, wo_height = 1080\<rparr>
       else \<lparr>wo_width = 1280, wo_height = 720\<rparr>),
     output_list = [\<lparr>so_output = Some 1, so_app_ids = None\<rparr>,
                    \<lparr>so_output = Some 2, so_app_ids = Some ''vlc,kiosk-app''\<rparr>],
     shseats = [0 \<mapsto> \<lparr>seat_focused_surface = Some 10\<rparr>, 1 \<mapsto> \<lparr>seat_focused_surface = None\<rparr>],
     seat_list = [0, 1],
     focused_output = Some 2,
     default_output = Some 1,
     surface_desktop = (\<lambda>surface. if surface = 10 \<or> surface = 11 then Some surface else None),
     main_surface = (\<lambda>surface. surface),
     commands = []\<rparr>"

text \<open>The same shell after output 1 has gone: the root window has no output.\<close>

definition ex_unbound :: kiosk_shell where
  "ex_unbound = ex_shell\<lparr>surfaces :=
     [10 \<mapsto> ex_root\<lparr>ss_output := None, ss_output_destroy_listener := False\<rparr>,
      11 \<mapsto> ex_child]\<rparr>"

text \<open>
  The shell without output 1 in which the client of window 11 has set the empty string as
  its application identifier (\<^verbatim>\<open>xdg_toplevel.set_app_id("")\<close>); and the first shell
  with a desktop surface 13 of such a client, which has no side record yet.
\<close>

definition ex_empty_id :: kiosk_shell where
  "ex_empty_id = ex_unbound\<lparr>dsurfaces :=
     (dsurfaces ex_unbound)(11 := (dsurfaces ex_unbound 11)\<lparr>ds_app_id := Some ''''\<rparr>)\<rparr>"

definition ex_anonymous :: kiosk_shell where
  "ex_anonymous = ex_shell\<lparr>dsurfaces :=
     (dsurfaces ex_shell)(13 := no_dsurface\<lparr>ds_app_id := Some ''''\<rparr>)\<rparr>"

text \<open>The shell before any focus: no seat has a focused surface and all counts are zero.\<close>

definition ex_initial :: kiosk_shell where
  "ex_initial = ex_shell\<lparr>
     surfaces := [10 \<mapsto> ex_root\<lparr>ss_focus_count := 0\<rparr>, 11 \<mapsto> ex_child],
     shseats := [0 \<mapsto> \<lparr>seat_focused_surface = None\<rparr>, 1 \<mapsto> \<lparr>seat_focused_surface = None\<rparr>]\<rparr>"

text \<open>Focus swaps between the two windows across the two seats.\<close>

definition ex_swaps :: "(seat_ref \<times> surface_ref option) list" where
  "ex_swaps = [(0, Some 10), (1, Some 11), (0, Some 11), (1, Some 10), (0, Some 10), (1, Some 10)]"

text \<open>
  A layer: the view of a surface that is not a desktop surface, an unmapped view, and the
  views of the two windows, the child's first.
\<close>

definition ex_layer :: "weston_view list" where
  "ex_layer = [\<lparr>wv_ref = 20, wv_is_mapped = True, wv_surface = 20\<rparr>,
               \<lparr>wv_ref = 21, wv_is_mapped = False, wv_surface = 10\<rparr>,
               \<lparr>wv_ref = 11, wv_is_mapped = True, wv_surface = 11\<rparr>,
               \<lparr>wv_ref = 10, wv_is_mapped = True, wv_surface = 10\<rparr>]"

section \<open>Affinity matching: proofs\<close>

lemma occurs_at_prefix:
  "occurs_at app_ids app_id p \<longleftrightarrow> p \<le> length app_ids \<and> prefix app_id (drop p app_ids)"
proof
  assume o: "occurs_at app_ids app_id p"
  then have "drop p app_ids = app_id @ drop (length app_id) (drop p app_ids)"
    by (metis occurs_at_def append_take_drop_id)
  with o show "p \<le> length app_ids \<and> prefix app_id (drop p app_ids)"
    by (auto simp: occurs_at_def prefix_def)
next
  assume r: "p \<le> length app_ids \<and> prefix app_id (drop p app_ids)"
  then obtain zs where zs: "drop p app_ids = app_id @ zs"
    by (auto simp: prefix_def)
  then have "length (drop p app_ids) = length app_id + length zs" by simp
  with r have "p + length app_id \<le> length app_ids" by auto
  with zs show "occurs_at app_ids app_id p"
    by (simp add: occurs_at_def)
qed

lemma strstr_Some:
  "strstr hay needle = Some k \<Longrightarrow>
     k \<le> length hay \<and> prefix needle (drop k hay) \<and> (\<forall>j<k. \<not> prefix needle (drop j hay))"
proof (induction hay arbitrary: k)
  case Nil
  then show ?case by (auto split: if_splits)
next
  case (Cons c hay)
  show ?case
  proof (cases "prefix needle (c # hay)")
    case True
    with Cons.prems show ?thesis by simp
  next
    case False
    with Cons.prems obtain k' where k': "strstr hay needle = Some k'" "k = Suc k'"
      by auto
    from Cons.IH[OF k'(1)] False k'(2) show ?thesis
      by (auto simp: less_Suc_eq_0_disj)
  qed
qed

lemma strstr_None:
  "strstr hay needle = None \<Longrightarrow> j \<le> length hay \<Longrightarrow> \<not> prefix needle (drop j hay)"
proof (induction hay arbitrary: j)
  case Nil
  then show ?case by (auto split: if_splits)
next
  case (Cons c hay)
  then show ?case
    by (cases j) (auto split: if_splits)
qed

lemma has_app_id_loop_correct:
  "app_id \<noteq> [] \<Longrightarrow> cur \<le> length app_ids \<Longrightarrow>
   has_app_id_loop app_ids app_id cur = Some (\<exists>p\<ge>cur. bounded_at app_ids app_id p)"
proof (induction app_ids app_id cur rule: has_app_id_loop.induct)
  case (1 app_ids app_id cur)
  show ?case
  proof (cases "strstr (drop cur app_ids) app_id")
    case None
    have "\<not> bounded_at app_ids app_id p" if "cur \<le> p" for p
    proof
      assume b: "bounded_at app_ids app_id p"
      then have "p \<le> length app_ids" "prefix app_id (drop p app_ids)"
        by (auto simp: bounded_at_def occurs_at_prefix)
      moreover from strstr_None[OF None, of "p - cur"] that \<open>p \<le> length app_ids\<close>
      have "\<not> prefix app_id (drop p app_ids)" by simp
      ultimately show False by simp
    qed
    with None "1.prems" show ?thesis
      by (subst has_app_id_loop.simps) auto
  next
    case (Some k)
    define p where "p = cur + k"
    from strstr_Some[OF Some] "1.prems"
    have k: "p \<le> length app_ids" "prefix app_id (drop p app_ids)"
      and first: "\<And>j. cur \<le> j \<Longrightarrow> j < p \<Longrightarrow> \<not> prefix app_id (drop j app_ids)"
    proof -
      from strstr_Some[OF Some] "1.prems" show "p \<le> length app_ids"
        by (auto simp: p_def)
      from strstr_Some[OF Some] show "prefix app_id (drop p app_ids)"
        by (simp add: p_def add.commute)
      fix j assume j: "cur \<le> j" "j < p"
      then have "j - cur < k" by (simp add: p_def less_diff_conv2 add.commute)
      with strstr_Some[OF Some] have "\<not> prefix app_id (drop (j - cur) (drop cur app_ids))"
        by blast
      with j show "\<not> prefix app_id (drop j app_ids)" by simp
    qed
    have occ: "occurs_at app_ids app_id p"
      using k by (simp add: occurs_at_prefix)
    then have len: "p + length app_id \<le> length app_ids"
      by (simp add: occurs_at_def)
    with "1.prems" have p1: "p + 1 \<le> length app_ids"
      by (cases app_id) auto
    let ?chk = "(char_at app_ids (p + length app_id) = Some CHR '','' \<or>
               char_at app_ids (p + length app_id) = None) \<and>
              (p = 0 \<or> char_at app_ids (p - 1) = Some CHR '','')"
    have chk: "?chk \<longleftrightarrow> bounded_at app_ids app_id p"
      using occ len p1 by (auto simp: bounded_at_def char_at_def)
    have step: "has_app_id_loop app_ids app_id cur =
        (if ?chk then Some True else has_app_id_loop app_ids app_id (p + 1))"
      using Some "1.prems" by (subst has_app_id_loop.simps) (simp add: p_def Let_def)
    show ?thesis
    proof (cases ?chk)
      case True
      with chk have "bounded_at app_ids app_id p" by simp
      moreover have "cur \<le> p" by (simp add: p_def)
      ultimately have "\<exists>p\<ge>cur. bounded_at app_ids app_id p" by blast
      moreover from step True have "has_app_id_loop app_ids app_id cur = Some True"
        by (simp only: simp_thms if_True if_False)
      ultimately show ?thesis by simp
    next
      case False
      have ih: "has_app_id_loop app_ids app_id (p + 1) =
          Some (\<exists>q\<ge>p + 1. bounded_at app_ids app_id q)"
        using "1.IH"[OF _ Some p_def False] "1.prems" p1 by simp
      have "(\<exists>q\<ge>cur. bounded_at app_ids app_id q) \<longleftrightarrow> (\<exists>q\<ge>p + 1. bounded_at app_ids app_id q)"
      proof
        assume "\<exists>q\<ge>cur. bounded_at app_ids app_id q"
        then obtain q where q: "cur \<le> q" "bounded_at app_ids app_id q" by blast
        have "\<not> q < p" using first[OF q(1)] q(2)
          by (auto simp: bounded_at_def occurs_at_prefix)
        moreover have "q \<noteq> p" using q(2) chk False by auto
        ultimately have "p + 1 \<le> q" by simp
        with q(2) show "\<exists>q\<ge>p + 1. bounded_at app_ids app_id q" by blast
      next
        assume "\<exists>q\<ge>p + 1. bounded_at app_ids app_id q"
        then obtain q where "p + 1 \<le> q" "bounded_at app_ids app_id q" by blast
        then show "\<exists>q\<ge>cur. bounded_at app_ids app_id q"
          by (intro exI[of _ q]) (simp add: p_def)
      qed
      moreover from step False
      have "has_app_id_loop app_ids app_id cur = has_app_id_loop app_ids app_id (p + 1)"
        by (simp only: simp_thms if_True if_False)
      ultimately show ?thesis using ih by simp
    qed
  qed
qed

lemma spec_token_match_iff:
  "spec_token_match app_ids app_id \<longleftrightarrow> (\<exists>p. bounded_at app_ids app_id p)"
proof -
  have "bounded_at app_ids app_id p \<Longrightarrow> p \<in> set [0..<Suc (length app_ids)]" for p
    by (auto simp: bounded_at_def occurs_at_def)
  then show ?thesis
    unfolding spec_token_match_def list_ex_iff by blast
qed

lemma split_commas_nonempty: "split_commas s \<noteq> []"
  by (induction s) (auto split: list.splits)

lemma bounded_at_Cons_Suc:
  "bounded_at (c # cs) a (Suc q) \<longleftrightarrow> (q = 0 \<longrightarrow> c = CHR '','') \<and> bounded_at cs a q"
  by (cases q) (auto simp: bounded_at_def occurs_at_def)

lemma bounded_at_Cons_Cons_0:
  "bounded_at (c # cs) (d # a) 0 \<longleftrightarrow> c = d \<and> bounded_at cs a 0"
  by (auto simp: bounded_at_def occurs_at_def)

lemma bounded_at_Nil_0:
  "bounded_at s [] 0 \<longleftrightarrow> s = [] \<or> hd s = CHR '',''"
  by (cases s) (auto simp: bounded_at_def occurs_at_def)

lemma bounded_at_head:
  "CHR '','' \<notin> set a \<Longrightarrow> bounded_at s a 0 \<longleftrightarrow> a = hd (split_commas s)"
proof (induction s arbitrary: a)
  case Nil
  then show ?case by (auto simp: bounded_at_def occurs_at_def)
next
  case (Cons c cs)
  obtain t ts where sp: "split_commas cs = t # ts"
    using split_commas_nonempty[of cs] by (cases "split_commas cs") auto
  show ?case
  proof (cases a)
    case Nil
    then show ?thesis using sp by (simp add: bounded_at_Nil_0)
  next
    case (Cons d a')
    with Cons.prems have d: "d \<noteq> CHR '',''" "CHR '','' \<notin> set a'" by auto
    from Cons.IH[OF d(2)] sp have "bounded_at cs a' 0 \<longleftrightarrow> a' = t" by simp
    with Cons d sp show ?thesis
      by (auto simp: bounded_at_Cons_Cons_0)
  qed
qed

lemma bounded_at_tail:
  "CHR '','' \<notin> set a \<Longrightarrow> (\<exists>p>0. bounded_at s a p) \<longleftrightarrow> a \<in> set (tl (split_commas s))"
proof (induction s)
  case Nil
  then show ?case by (auto simp: bounded_at_def occurs_at_def)
next
  case (Cons c cs)
  obtain t ts where sp: "split_commas cs = t # ts"
    using split_commas_nonempty[of cs] by (cases "split_commas cs") auto
  have "(\<exists>p>0. bounded_at (c # cs) a p) \<longleftrightarrow> (\<exists>q. bounded_at (c # cs) a (Suc q))"
    by (metis gr0_conv_Suc zero_less_Suc)
  also have "\<dots> \<longleftrightarrow> (c = CHR '','' \<and> bounded_at cs a 0) \<or> (\<exists>q>0. bounded_at cs a q)"
    unfolding bounded_at_Cons_Suc by (metis gr0I less_numeral_extra(3))
  also have "\<dots> \<longleftrightarrow> (c = CHR '','' \<and> a = t) \<or> a \<in> set ts"
    using Cons.IH[OF Cons.prems] bounded_at_head[OF Cons.prems, of cs] sp by simp
  also have "\<dots> \<longleftrightarrow> a \<in> set (tl (split_commas (c # cs)))"
    using sp by auto
  finally show ?case .
qed

lemma bounded_at_tokens:
  assumes "CHR '','' \<notin> set a"
  shows "(\<exists>p. bounded_at s a p) \<longleftrightarrow> a \<in> set (split_commas s)"
proof -
  obtain t ts where sp: "split_commas s = t # ts"
    using split_commas_nonempty[of s] by (cases "split_commas s") auto
  have "(\<exists>p. bounded_at s a p) \<longleftrightarrow> bounded_at s a 0 \<or> (\<exists>p>0. bounded_at s a p)"
    by (metis gr0I)
  also have "\<dots> \<longleftrightarrow> a = t \<or> a \<in> set ts"
    using bounded_at_head[OF assms, of s] bounded_at_tail[OF assms, of s] sp by simp
  finally show ?thesis using sp by auto
qed


lemma has_app_id_spec:
  assumes "app_id \<noteq> []" and "so_app_ids shoutput = Some app_ids"
  shows "kiosk_shell_output_has_app_id shoutput app_id = Some (spec_token_match app_ids app_id)"
  using has_app_id_loop_correct[OF assms(1), of 0 app_ids] assms(2)
  by (simp add: kiosk_shell_output_has_app_id_def spec_token_match_iff)

text \<open>
  Claim C2. For a non-empty application identifier, \<^verbatim>\<open>kiosk_shell_output_has_app_id\<close>
  succeeds exactly when the identifier occurs in the affinity string bounded on the left
  by the start of the string or a comma and on the right by a comma or the end of the
  string; for an identifier without a comma this is membership among the comma-separated
  tokens. The list \<open>vlc,mpv\<close> matches \<open>vlc\<close> and \<open>mpv\<close> and not \<open>vl\<close>,
  \<open>mpvx\<close> or \<open>cvlc\<close>, and \<open>foo,bar\<close> does not match \<open>oo\<close>.
\<close>

theorem has_app_id_complete_token:
  "(app_id \<noteq> [] \<and> so_app_ids shoutput = Some app_ids \<longrightarrow>
      kiosk_shell_output_has_app_id shoutput app_id = Some (spec_token_match app_ids app_id) \<and>
      (CHR '','' \<notin> set app_id \<longrightarrow>
         spec_token_match app_ids app_id = (app_id \<in> set (split_commas app_ids)))) \<and>
   kiosk_shell_output_has_app_id \<lparr>so_output = out, so_app_ids = Some ''vlc,mpv''\<rparr> ''vlc'' = Some True \<and>
   kiosk_shell_output_has_app_id \<lparr>so_output = out, so_app_ids = Some ''vlc,mpv''\<rparr> ''mpv'' = Some True \<and>
   kiosk_shell_output_has_app_id \<lparr>so_output = out, so_app_ids = Some ''vlc,mpv''\<rparr> ''vl'' = Some False \<and>
   kiosk_shell_output_has_app_id \<lparr>so_output = out, so_app_ids = Some ''vlc,mpv''\<rparr> ''mpvx'' = Some False \<and>
   kiosk_shell_output_has_app_id \<lparr>so_output = out, so_app_ids = Some ''vlc,mpv''\<rparr> ''cvlc'' = Some False \<and>
   kiosk_shell_output_has_app_id \<lparr>so_output = out, so_app_ids = Some ''foo,bar''\<rparr> ''oo'' = Some False"
proof -
  have general: "kiosk_shell_output_has_app_id shoutput app_id = Some (spec_token_match app_ids app_id)"
    if "app_id \<noteq> []" "so_app_ids shoutput = Some app_ids"
    using that by (rule has_app_id_spec)
  have tokens: "spec_token_match app_ids app_id = (app_id \<in> set (split_commas app_ids))"
    if "CHR '','' \<notin> set app_id"
    using bounded_at_tokens[OF that] by (simp add: spec_token_match_iff)
  have e1: "has_app_id_loop ''vlc,mpv'' ''vlc'' 0 = Some True" by code_simp
  have e2: "has_app_id_loop ''vlc,mpv'' ''mpv'' 0 = Some True" by code_simp
  have e3: "has_app_id_loop ''vlc,mpv'' ''vl'' 0 = Some False" by code_simp
  have e4: "has_app_id_loop ''vlc,mpv'' ''mpvx'' 0 = Some False" by code_simp
  have e5: "has_app_id_loop ''vlc,mpv'' ''cvlc'' 0 = Some False" by code_simp
  have e6: "has_app_id_loop ''foo,bar'' ''oo'' 0 = Some False" by code_simp
  show ?thesis
    using general tokens e1 e2 e3 e4 e5 e6
    by (simp add: kiosk_shell_output_has_app_id_def)
qed

theorem has_app_id_complete_token_witness:
  "''mpv'' \<noteq> [] \<and>
   so_app_ids \<lparr>so_output = Some 2, so_app_ids = Some ''vlc,mpv''\<rparr> = Some ''vlc,mpv'' \<and>
   CHR '','' \<notin> set ''mpv'' \<and>
   kiosk_shell_output_has_app_id \<lparr>so_output = Some 2, so_app_ids = Some ''vlc,mpv''\<rparr> ''mpv''
     = Some (spec_token_match ''vlc,mpv'' ''mpv'') \<and>
   spec_token_match ''vlc,mpv'' ''mpv'' = (''mpv'' \<in> set (split_commas ''vlc,mpv''))"
  using has_app_id_complete_token
    [of "''mpv''" "\<lparr>so_output = Some 2, so_app_ids = Some ''vlc,mpv''\<rparr>" "''vlc,mpv''"]
  by simp

section \<open>Best-output selection: proofs\<close>


lemma parent_chain_root:
  "parent_chain h p r \<Longrightarrow> kiosk_shell_surface_get_parent_root h p = Some r"
  by (induction rule: parent_chain.induct)
     (simp_all add: kiosk_shell_surface_get_parent_root.simps)

lemma parent_chain_is_root:
  "parent_chain h p r \<Longrightarrow> \<exists>y. h r = Some y \<and> ss_parent y = None"
  by (induction rule: parent_chain.induct) auto

lemma has_app_id_defined:
  "app_id \<noteq> [] \<Longrightarrow> kiosk_shell_output_has_app_id shoutput app_id \<noteq> None"
  by (cases "so_app_ids shoutput")
     (simp_all add: kiosk_shell_output_has_app_id_def has_app_id_loop_correct)

lemma output_list_scan_find:
  "app_id \<noteq> [] \<Longrightarrow>
   output_list_scan l app_id =
     Some (find (\<lambda>shoutput. kiosk_shell_output_has_app_id shoutput app_id = Some True) l)"
proof (induction l)
  case Nil
  then show ?case by simp
next
  case (Cons a l)
  from has_app_id_defined[OF Cons.prems, of a]
  obtain b where "kiosk_shell_output_has_app_id a app_id = Some b" by auto
  with Cons show ?case by (cases b) auto
qed

lemma affinity_scan:
  assumes "ds_app_id (dsurfaces s (ss_desktop_surface x)) \<noteq> Some []"
  shows "(case ds_app_id (dsurfaces s (ss_desktop_surface x)) of
            None \<Rightarrow> Some None
          | Some app_id \<Rightarrow> output_list_scan (output_list s) app_id) = Some (affinity_output s x)"
  using assms
  by (auto simp: affinity_output_def output_list_scan_find split: option.splits)

text \<open>
  The order of the candidates for every application identifier but the empty string:
  \<^verbatim>\<open>kiosk_shell_surface_find_best_output\<close> returns the first of the window's own
  output; the output of the first registered shell output whose affinity list has the
  window's application identifier; the output of the root of the window's parent chain;
  the focused output; the default output; and \<^verbatim>\<open>NULL\<close> when there is none. The
  first two are decided without walking the parent chain, and the others return whenever
  the chain is finite.
\<close>

theorem find_best_output_priority:
  assumes "surfaces s shsurf = Some x"
  shows
   "(ss_output x = Some out \<longrightarrow>
       kiosk_shell_surface_find_best_output s shsurf = Some (Some out)) \<and>
    (ss_output x = None \<and> ds_app_id (dsurfaces s (ss_desktop_surface x)) \<noteq> Some [] \<longrightarrow>
       (affinity_output s x = Some shoutput \<longrightarrow>
          kiosk_shell_surface_find_best_output s shsurf = Some (so_output shoutput)) \<and>
       (affinity_output s x = None \<and>
        parent_chain (surfaces s) shsurf root \<and> surfaces s root = Some y \<longrightarrow>
          (ss_output y = Some out \<longrightarrow>
             kiosk_shell_surface_find_best_output s shsurf = Some (Some out)) \<and>
          (ss_output y = None \<and> focused_output s = Some out \<longrightarrow>
             kiosk_shell_surface_find_best_output s shsurf = Some (Some out)) \<and>
          (ss_output y = None \<and> focused_output s = None \<and> default_output s = Some out \<longrightarrow>
             kiosk_shell_surface_find_best_output s shsurf = Some (Some out)) \<and>
          (ss_output y = None \<and> focused_output s = None \<and> default_output s = None \<longrightarrow>
             kiosk_shell_surface_find_best_output s shsurf = Some None)))"
proof (cases "ds_app_id (dsurfaces s (ss_desktop_surface x)) = Some []")
  case True
  with assms show ?thesis
    by (simp add: kiosk_shell_surface_find_best_output_def)
next
  case False
  with assms affinity_scan[OF False] show ?thesis
    by (auto simp: kiosk_shell_surface_find_best_output_def dest: parent_chain_root)
qed

theorem find_best_output_priority_witness:
  "surfaces ex_shell 11 = Some ex_child \<and>
   ds_app_id (dsurfaces ex_shell (ss_desktop_surface ex_child)) \<noteq> Some [] \<and>
   ss_output ex_child = None \<and> affinity_output ex_shell ex_child = None \<and>
   parent_chain (surfaces ex_shell) 11 10 \<and> surfaces ex_shell 10 = Some ex_root \<and>
   ss_output ex_root = Some 1 \<and>
   kiosk_shell_surface_find_best_output ex_shell 10 = Some (Some 1) \<and>
   kiosk_shell_surface_find_best_output ex_unbound 10 = Some (Some 2) \<and>
   kiosk_shell_surface_find_best_output ex_shell 11 = Some (Some 1) \<and>
   kiosk_shell_surface_find_best_output ex_unbound 11 = Some (Some 2) \<and>
   kiosk_shell_surface_find_best_output (ex_unbound\<lparr>focused_output := None\<rparr>) 11 = Some (Some 1) \<and>
   kiosk_shell_surface_find_best_output
     (ex_unbound\<lparr>focused_output := None, default_output := None\<rparr>) 11 = Some None"
proof -
  let ?so = "\<lparr>so_output = Some 2, so_app_ids = Some ''vlc,kiosk-app''\<rparr>"
  let ?ru = "ex_root\<lparr>ss_output := None, ss_output_destroy_listener := False\<rparr>"
  have m: "has_app_id_loop ''vlc,kiosk-app'' ''vlc'' 0 = Some True" by code_simp
  have d: "has_app_id_loop ''vlc,kiosk-app'' ''dialog'' 0 = Some False" by code_simp
  have aff_root: "affinity_output ex_unbound ?ru = Some ?so"
    using m by (simp add: affinity_output_def ex_unbound_def ex_shell_def ex_root_def
        no_dsurface_def kiosk_shell_output_has_app_id_def)
  have aff_child: "affinity_output ex_shell ex_child = None"
    "affinity_output ex_unbound ex_child = None"
    "affinity_output (ex_unbound\<lparr>focused_output := None\<rparr>) ex_child = None"
    "affinity_output (ex_unbound\<lparr>focused_output := None, default_output := None\<rparr>) ex_child = None"
    using d by (simp_all add: affinity_output_def ex_unbound_def ex_shell_def ex_child_def
        no_dsurface_def kiosk_shell_output_has_app_id_def)
  have c1: "parent_chain (surfaces ex_shell) 11 10"
    by (rule chain_step[where x = ex_child and q = 10])
       (simp_all add: ex_shell_def ex_child_def, rule chain_root[where x = ex_root],
        simp_all add: ex_root_def)
  have c2: "parent_chain (surfaces ex_unbound) 11 10"
    by (rule chain_step[where x = ex_child and q = 10])
       (simp_all add: ex_unbound_def ex_shell_def ex_child_def,
        rule chain_root[where x = ?ru], simp_all add: ex_root_def)
  have c3: "parent_chain (surfaces (ex_unbound\<lparr>focused_output := None\<rparr>)) 11 10"
    "parent_chain (surfaces (ex_unbound\<lparr>focused_output := None, default_output := None\<rparr>)) 11 10"
    using c2 by simp_all
  have p1: "kiosk_shell_surface_find_best_output ex_shell 10 = Some (Some 1)"
    using find_best_output_priority[where s = ex_shell and shsurf = 10 and x = ex_root and out = 1]
    by (simp add: ex_shell_def ex_root_def no_dsurface_def)
  have p2: "kiosk_shell_surface_find_best_output ex_unbound 10 = Some (Some 2)"
    using find_best_output_priority[where s = ex_unbound and shsurf = 10 and x = ?ru
        and shoutput = ?so] aff_root
    by (simp add: ex_unbound_def ex_shell_def ex_root_def no_dsurface_def)
  have p3: "kiosk_shell_surface_find_best_output ex_shell 11 = Some (Some 1)"
    using find_best_output_priority[where s = ex_shell and shsurf = 11 and x = ex_child
        and root = 10 and y = ex_root and out = 1] aff_child c1
    by (simp add: ex_shell_def ex_root_def ex_child_def no_dsurface_def)
  have p4: "kiosk_shell_surface_find_best_output ex_unbound 11 = Some (Some 2)"
    using find_best_output_priority[where s = ex_unbound and shsurf = 11 and x = ex_child
        and root = 10 and y = ?ru and out = 2] aff_child c2
    by (simp add: ex_unbound_def ex_shell_def ex_root_def ex_child_def no_dsurface_def)
  have p5: "kiosk_shell_surface_find_best_output (ex_unbound\<lparr>focused_output := None\<rparr>) 11 = Some (Some 1)"
    using find_best_output_priority[where s = "ex_unbound\<lparr>focused_output := None\<rparr>"
        and shsurf = 11 and x = ex_child and root = 10 and y = ?ru and out = 1] aff_child c3
    by (simp add: ex_unbound_def ex_shell_def ex_root_def ex_child_def no_dsurface_def)
  have p6: "kiosk_shell_surface_find_best_output
     (ex_unbound\<lparr>focused_output := None, default_output := None\<rparr>) 11 = Some None"
    using find_best_output_priority[where s = "ex_unbound\<lparr>focused_output := None, default_output := None\<rparr>"
        and shsurf = 11 and x = ex_child and root = 10 and y = ?ru] aff_child c3
    by (simp add: ex_unbound_def ex_shell_def ex_root_def ex_child_def no_dsurface_def)
  have h: "surfaces ex_shell 11 = Some ex_child" "surfaces ex_shell 10 = Some ex_root"
    "ds_app_id (dsurfaces ex_shell (ss_desktop_surface ex_child)) \<noteq> Some []"
    "ss_output ex_child = None" "ss_output ex_root = Some 1"
    by (simp_all add: ex_shell_def ex_child_def ex_root_def no_dsurface_def)
  from p1 p2 p3 p4 p5 p6 h aff_child(1) c1 show ?thesis by simp
qed

text \<open>
  With the empty string as application identifier, \<^verbatim>\<open>strstr\<close> finds the identifier
  at every position of an affinity list; when no position is both preceded by a comma (or
  the start) and followed by a comma (or the end), \<^verbatim>\<open>cur++\<close> steps over the
  terminating zero and the next round reads past the end of the list.
\<close>

lemma has_app_id_empty:
  "kiosk_shell_output_has_app_id
     \<lparr>so_output = Some 2, so_app_ids = Some ''vlc,kiosk-app''\<rparr> '''' = None"
proof -
  have "has_app_id_loop ''vlc,kiosk-app'' '''' 0 = None" by code_simp
  then show ?thesis by (simp add: kiosk_shell_output_has_app_id_def)
qed

text \<open>
  Claim C1, at a window whose application identifier is the empty string. Window 11 of
  \<open>ex_empty_id\<close> has no output of its own; the first registered output has no affinity
  list and the second has the list \<open>vlc,kiosk-app\<close>, of which the empty string is no
  item; the parent chain ends in window 10, which has no output either, and output 2 is
  focused. The order of the candidates gives the focused output, but
  \<^verbatim>\<open>kiosk_shell_surface_find_best_output\<close> tests the identifier for \<^verbatim>\<open>NULL\<close>
  only, and the affinity match of the second output reads past the end of its list: the
  selection has no result.
\<close>

theorem find_best_output_empty_app_id:
  "surfaces ex_empty_id 11 = Some ex_child \<and>
   ss_output ex_child = None \<and>
   ds_app_id (dsurfaces ex_empty_id (ss_desktop_surface ex_child)) = Some '''' \<and>
   output_list ex_empty_id =
     [\<lparr>so_output = Some 1, so_app_ids = None\<rparr>,
      \<lparr>so_output = Some 2, so_app_ids = Some ''vlc,kiosk-app''\<rparr>] \<and>
   kiosk_shell_output_has_app_id \<lparr>so_output = Some 1, so_app_ids = None\<rparr> '''' = Some False \<and>
   kiosk_shell_output_has_app_id
     \<lparr>so_output = Some 2, so_app_ids = Some ''vlc,kiosk-app''\<rparr> '''' = None \<and>
   kiosk_shell_surface_get_parent_root (surfaces ex_empty_id) 11 = Some 10 \<and>
   map_option ss_output (surfaces ex_empty_id 10) = Some None \<and>
   focused_output ex_empty_id = Some 2 \<and>
   kiosk_shell_surface_find_best_output ex_empty_id 11 = None"
proof -
  have e: "surfaces ex_empty_id 11 = Some ex_child" "ss_output ex_child = None"
    "ds_app_id (dsurfaces ex_empty_id (ss_desktop_surface ex_child)) = Some ''''"
    "output_list ex_empty_id =
     [\<lparr>so_output = Some 1, so_app_ids = None\<rparr>,
      \<lparr>so_output = Some 2, so_app_ids = Some ''vlc,kiosk-app''\<rparr>]"
    "map_option ss_output (surfaces ex_empty_id 10) = Some None"
    "focused_output ex_empty_id = Some 2"
    by (simp_all add: ex_empty_id_def ex_unbound_def ex_shell_def ex_child_def ex_root_def
        no_dsurface_def)
  have f: "kiosk_shell_output_has_app_id \<lparr>so_output = Some 1, so_app_ids = None\<rparr> '''' = Some False"
    by (simp add: kiosk_shell_output_has_app_id_def)
  have r: "kiosk_shell_surface_get_parent_root (surfaces ex_empty_id) 11 = Some 10"
    by (simp add: kiosk_shell_surface_get_parent_root.simps ex_empty_id_def ex_unbound_def
        ex_shell_def ex_child_def ex_root_def)
  have b: "kiosk_shell_surface_find_best_output ex_empty_id 11 = None"
    using e(1-4) f has_app_id_empty
    by (simp add: kiosk_shell_surface_find_best_output_def)
  from e f has_app_id_empty r b show ?thesis by simp
qed

section \<open>The state functions: basic facts\<close>


lemmas command_defs =
  issue_def upd_dsurface_def weston_desktop_surface_set_fullscreen_def
  weston_desktop_surface_set_maximized_def weston_desktop_surface_set_size_def
  weston_desktop_surface_set_activated_def weston_desktop_surface_set_user_data_def
  weston_view_activate_def

lemma upd_surface_Some:
  "surfaces s p = Some x \<Longrightarrow> upd_surface p f s = Some (s\<lparr>surfaces := (surfaces s)(p \<mapsto> f x)\<rparr>)"
  by (simp add: upd_surface_def)

lemma upd_surface_None: "surfaces s p = None \<Longrightarrow> upd_surface p f s = None"
  by (simp add: upd_surface_def)

lemma set_output_Some:
  "surfaces s p = Some x \<Longrightarrow>
   kiosk_shell_surface_set_output p out s =
     Some (s\<lparr>surfaces := (surfaces s)(p \<mapsto>
       x\<lparr>ss_output := out, ss_output_destroy_listener := (out \<noteq> None)\<rparr>)\<rparr>)"
  by (cases x; cases out) (simp_all add: kiosk_shell_surface_set_output_def upd_surface_def Let_def)

text \<open>The parent walk returns exactly on finite chains, and reads only the parent fields.\<close>

lemma parent_root_chain:
  assumes a: "kiosk_shell_surface_get_parent_root h p = Some r"
  shows "parent_chain h p r"
proof (rule kiosk_shell_surface_get_parent_root.raw_induct[OF _ a])
  fix f :: "(shsurf_ref \<rightharpoonup> kiosk_shell_surface) \<Rightarrow> shsurf_ref \<Rightarrow> shsurf_ref option"
  fix h root ha
  assume "\<And>root b y. f root b = Some y \<Longrightarrow> parent_chain root b y"
    and "(case h root of None \<Rightarrow> None
          | Some r \<Rightarrow> (case ss_parent r of None \<Rightarrow> Some root | Some p \<Rightarrow> f h p)) = Some ha"
  then show "parent_chain h root ha"
    by (auto split: option.splits intro: parent_chain.intros)
qed

lemma parent_chain_agree:
  assumes "parent_chain h p r"
      and "\<forall>q. map_option ss_parent (h' q) = map_option ss_parent (h q)"
  shows "parent_chain h' p r"
  using assms
proof (induction rule: parent_chain.induct)
  case (chain_root h p x)
  from chain_root(3) have "map_option ss_parent (h' p) = map_option ss_parent (h p)" by blast
  with chain_root(1,2) show ?case
    by (auto intro: parent_chain.chain_root)
next
  case (chain_step h p x q r)
  from chain_step(5) have "map_option ss_parent (h' p) = map_option ss_parent (h p)" by blast
  with chain_step(1,2) chain_step(4)[OF chain_step(5)] show ?case
    by (auto intro: parent_chain.chain_step)
qed

lemma parent_root_agree:
  assumes "\<And>q. map_option ss_parent (h' q) = map_option ss_parent (h q)"
  shows "kiosk_shell_surface_get_parent_root h' p = kiosk_shell_surface_get_parent_root h p"
proof (cases "kiosk_shell_surface_get_parent_root h p")
  case None
  show ?thesis
  proof (cases "kiosk_shell_surface_get_parent_root h' p")
    case (Some r)
    from parent_chain_agree[OF parent_root_chain[OF Some], of h] assms
    have "parent_chain h p r" by simp
    with None show ?thesis by (simp add: parent_chain_root)
  qed (simp add: None)
next
  case (Some r)
  from parent_chain_agree[OF parent_root_chain[OF Some], of h'] assms
  have "parent_chain h' p r" by simp
  with Some show ?thesis by (simp add: parent_chain_root)
qed

text \<open>The selection reads only these parts of the state.\<close>

lemma find_best_output_agree:
  assumes "\<And>q. map_option ss_parent (surfaces s' q) = map_option ss_parent (surfaces s q)"
      and "\<And>q. map_option ss_output (surfaces s' q) = map_option ss_output (surfaces s q)"
      and "\<And>q. map_option ss_desktop_surface (surfaces s' q) = map_option ss_desktop_surface (surfaces s q)"
      and "\<And>d. ds_app_id (dsurfaces s' d) = ds_app_id (dsurfaces s d)"
      and "output_list s' = output_list s"
      and "focused_output s' = focused_output s"
      and "default_output s' = default_output s"
  shows "kiosk_shell_surface_find_best_output s' p = kiosk_shell_surface_find_best_output s p"
proof -
  have root: "kiosk_shell_surface_get_parent_root (surfaces s') p =
      kiosk_shell_surface_get_parent_root (surfaces s) p"
    by (rule parent_root_agree) (rule assms(1))
  show ?thesis
  proof (cases "surfaces s p")
    case None
    with assms(1)[of p] show ?thesis
      by (simp add: kiosk_shell_surface_find_best_output_def)
  next
    case (Some x)
    with assms(1)[of p] obtain x' where x': "surfaces s' p = Some x'" by auto
    from Some x' assms(2)[of p] assms(3)[of p]
    have eq: "ss_output x' = ss_output x" "ss_desktop_surface x' = ss_desktop_surface x"
      by auto
    have tail: "(case surfaces s' r of None \<Rightarrow> None | Some y \<Rightarrow> F (ss_output y)) =
        (case surfaces s r of None \<Rightarrow> None | Some y \<Rightarrow> F (ss_output y))" for r and F :: "output_ref option \<Rightarrow> output_ref option option"
      using assms(2)[of r] by (cases "surfaces s r"; cases "surfaces s' r") simp_all
    note tail' = tail[where F = "\<lambda>out. case out of Some out \<Rightarrow> Some (Some out)
             | None \<Rightarrow> (case focused_output s of Some out \<Rightarrow> Some (Some out)
                 | None \<Rightarrow> (case default_output s of Some out \<Rightarrow> Some (Some out)
                     | None \<Rightarrow> Some None))"]
    show ?thesis
      unfolding kiosk_shell_surface_find_best_output_def
      by (simp add: Some x' eq root assms(4-7) tail' cong: option.case_cong)
  qed
qed

section \<open>Placement functions: closed forms and idempotence of the normal state\<close>


lemma find_best_output_returns:
  assumes "surfaces s p = Some x"
      and "ds_app_id (dsurfaces s (ss_desktop_surface x)) \<noteq> Some []"
      and "parent_chain (surfaces s) p root"
  shows "\<exists>out. kiosk_shell_surface_find_best_output s p = Some out"
proof -
  from parent_chain_is_root[OF assms(3)] obtain y where "surfaces s root = Some y" by auto
  with assms(1) affinity_scan[OF assms(2)] parent_chain_root[OF assms(3)] show ?thesis
    by (simp add: kiosk_shell_surface_find_best_output_def split: option.splits)
qed

lemma rebound_simps [simp]:
  "surfaces (rebound p x out s) =
     (surfaces s)(p \<mapsto> x\<lparr>ss_output := out, ss_output_destroy_listener := (out \<noteq> None)\<rparr>)"
  "dsurfaces (rebound p x out s) = dsurfaces s"
  "outputs (rebound p x out s) = outputs s"
  "output_list (rebound p x out s) = output_list s"
  "shseats (rebound p x out s) = shseats s"
  "seat_list (rebound p x out s) = seat_list s"
  "focused_output (rebound p x out s) = focused_output s"
  "default_output (rebound p x out s) = default_output s"
  "commands (rebound p x out s) = commands s"
  by (simp_all add: rebound_def)

lemma set_output_rebound:
  "surfaces s p = Some x \<Longrightarrow> kiosk_shell_surface_set_output p out s = Some (rebound p x out s)"
  by (simp add: set_output_Some rebound_def)

lemma size_to_output_sized:
  "surfaces s p = Some x \<Longrightarrow>
   size_to_output p s = Some (sized (ss_desktop_surface x) (ss_output x) s)"
  by (simp add: size_to_output_def sized_def split: option.splits)

lemma set_fullscreen_Some:
  assumes "surfaces s p = Some x"
      and "(case output of None \<Rightarrow> kiosk_shell_surface_find_best_output s p
            | Some out \<Rightarrow> Some (Some out)) = Some out"
  shows "kiosk_shell_surface_set_fullscreen p output s =
     Some (sized (ss_desktop_surface x) out
            (weston_desktop_surface_set_fullscreen (ss_desktop_surface x) True
              (rebound p x out s)))"
  using assms
  by (simp add: kiosk_shell_surface_set_fullscreen_def set_output_rebound
      size_to_output_def sized_def command_defs split: option.splits)

lemma set_maximized_Some:
  assumes "surfaces s p = Some x"
      and "kiosk_shell_surface_find_best_output s p = Some out"
  shows "kiosk_shell_surface_set_maximized p s =
     Some (sized (ss_desktop_surface x) out
            (weston_desktop_surface_set_maximized (ss_desktop_surface x) True
              (rebound p x out s)))"
  using assms
  by (simp add: kiosk_shell_surface_set_maximized_def set_output_rebound
      size_to_output_def sized_def command_defs split: option.splits)

lemma set_normal_bound:
  assumes "surfaces s p = Some x" and "ss_output x \<noteq> None"
  shows "kiosk_shell_surface_set_normal p s = Some (normal_commands (ss_desktop_surface x) s)"
  using assms by (auto simp: kiosk_shell_surface_set_normal_def normal_commands_def)

lemma set_normal_unbound:
  assumes "surfaces s p = Some x" and "ss_output x = None"
      and "kiosk_shell_surface_find_best_output s p = Some out"
  shows "kiosk_shell_surface_set_normal p s =
     Some (normal_commands (ss_desktop_surface x) (rebound p x out s))"
  using assms
  by (simp add: kiosk_shell_surface_set_normal_def normal_commands_def set_output_rebound)

lemma set_normal_cases:
  assumes "kiosk_shell_surface_set_normal p s = Some s1"
  obtains x where "surfaces s p = Some x" "ss_output x \<noteq> None"
      "s1 = normal_commands (ss_desktop_surface x) s"
  | x out where "surfaces s p = Some x" "ss_output x = None"
      "kiosk_shell_surface_find_best_output s p = Some out"
      "s1 = normal_commands (ss_desktop_surface x) (rebound p x out s)"
proof (cases "surfaces s p")
  case None
  with assms show ?thesis by (simp add: kiosk_shell_surface_set_normal_def)
next
  case (Some x)
  show ?thesis
  proof (cases "ss_output x")
    case (Some out)
    with \<open>surfaces s p = Some x\<close> assms set_normal_bound[of s p x] that(1)[of x]
    show ?thesis by simp
  next
    case None
    show ?thesis
    proof (cases "kiosk_shell_surface_find_best_output s p")
      case (Some out)
      with \<open>surfaces s p = Some x\<close> \<open>ss_output x = None\<close> assms
        set_normal_unbound[of s p x out] that(2)[of x out]
      show ?thesis by simp
    next
      case None
      with \<open>surfaces s p = Some x\<close> \<open>ss_output x = None\<close> assms show ?thesis
        by (simp add: kiosk_shell_surface_set_normal_def)
    qed
  qed
qed

lemma normal_commands_simps [simp]:
  "surfaces (normal_commands d s) = surfaces s"
  "outputs (normal_commands d s) = outputs s"
  "output_list (normal_commands d s) = output_list s"
  "shseats (normal_commands d s) = shseats s"
  "seat_list (normal_commands d s) = seat_list s"
  "focused_output (normal_commands d s) = focused_output s"
  "default_output (normal_commands d s) = default_output s"
  "commands (normal_commands d s) = commands s @ normal_trace d"
  "ds_app_id (dsurfaces (normal_commands d s) e) = ds_app_id (dsurfaces s e)"
  "ds_user_data (dsurfaces (normal_commands d s) e) = ds_user_data (dsurfaces s e)"
  by (simp_all add: normal_commands_def normal_trace_def command_defs)

lemma normal_commands_twice:
  "normal_commands d (normal_commands d s) =
     (normal_commands d s)\<lparr>commands := commands (normal_commands d s) @ normal_trace d\<rparr>"
  by (simp add: normal_commands_def normal_trace_def command_defs)

lemma rebound_same:
  assumes "surfaces s p = Some x" "ss_output x = None" "\<not> ss_output_destroy_listener x"
  shows "rebound p x None s = s"
proof -
  have "x\<lparr>ss_output := None, ss_output_destroy_listener := False\<rparr> = x"
    using assms(2,3) by (cases x) simp
  with assms(1) have "(surfaces s)(p \<mapsto> x\<lparr>ss_output := None, ss_output_destroy_listener := False\<rparr>) = surfaces s"
    by (simp add: fun_upd_idem)
  then show ?thesis by (simp add: rebound_def)
qed

text \<open>
  Claim C7. When \<^verbatim>\<open>kiosk_shell_surface_set_normal\<close> has returned, a second call
  returns too and leaves the state as the first call left it (bound output, flags and
  size of the desktop surface), issuing the same three commands again. The first call
  returns whenever the window's parent chain is finite.
\<close>

theorem set_normal_idempotent:
  assumes "surfaces s shsurf = Some x"
  shows
   "(kiosk_shell_surface_set_normal shsurf s = Some s1 \<longrightarrow>
       commands s1 = commands s @ normal_trace (ss_desktop_surface x) \<and>
       kiosk_shell_surface_set_normal shsurf s1 =
         Some (s1\<lparr>commands := commands s1 @ normal_trace (ss_desktop_surface x)\<rparr>)) \<and>
    (ds_app_id (dsurfaces s (ss_desktop_surface x)) \<noteq> Some [] \<and>
     parent_chain (surfaces s) shsurf root \<longrightarrow>
       kiosk_shell_surface_set_normal shsurf s \<noteq> None)"
proof (intro conjI impI)
  assume "ds_app_id (dsurfaces s (ss_desktop_surface x)) \<noteq> Some [] \<and>
     parent_chain (surfaces s) shsurf root"
  with find_best_output_returns[OF assms, of root]
  obtain out where out: "kiosk_shell_surface_find_best_output s shsurf = Some out" by auto
  show "kiosk_shell_surface_set_normal shsurf s \<noteq> None"
  proof (cases "ss_output x")
    case None
    with set_normal_unbound[OF assms None out] show ?thesis by simp
  next
    case (Some a)
    with set_normal_bound[OF assms] show ?thesis by simp
  qed
next
  assume a: "kiosk_shell_surface_set_normal shsurf s = Some s1"
  let ?d = "ss_desktop_surface x"
  from a show "commands s1 = commands s @ normal_trace ?d"
    using assms by (cases rule: set_normal_cases) auto
  from a show "kiosk_shell_surface_set_normal shsurf s1 =
         Some (s1\<lparr>commands := commands s1 @ normal_trace ?d\<rparr>)"
  proof (cases rule: set_normal_cases)
    case (1 x')
    with assms have [simp]: "x' = x" by simp
    from 1 have "surfaces s1 shsurf = Some x" by simp
    from set_normal_bound[OF this] 1 show ?thesis
      by (simp add: normal_commands_twice)
  next
    case (2 x' out)
    with assms have [simp]: "x' = x" by simp
    let ?x1 = "x\<lparr>ss_output := out, ss_output_destroy_listener := (out \<noteq> None)\<rparr>"
    from 2 have s1: "surfaces s1 shsurf = Some ?x1" by simp
    show ?thesis
    proof (cases out)
      case (Some a)
      with set_normal_bound[OF s1] 2 show ?thesis
        by (simp add: normal_commands_twice)
    next
      case None
      have "kiosk_shell_surface_find_best_output s1 shsurf =
          kiosk_shell_surface_find_best_output s shsurf"
        using assms 2 None by (intro find_best_output_agree) (auto simp: )
      with 2 None have fb: "kiosk_shell_surface_find_best_output s1 shsurf = Some None" by simp
      have "rebound shsurf ?x1 None s1 = s1"
        using s1 None by (intro rebound_same) auto
      with set_normal_unbound[OF s1 _ fb] None 2 show ?thesis
        by (simp add: normal_commands_twice)
    qed
  qed
qed

lemma ex_shell_chain: "parent_chain (surfaces ex_shell) 11 10"
  by (rule chain_step[where x = ex_child and q = 10])
     (simp_all add: ex_shell_def ex_child_def, rule chain_root[where x = ex_root],
      simp_all add: ex_root_def)

theorem set_normal_idempotent_witness:
  "surfaces ex_shell 11 = Some ex_child \<and>
   ds_app_id (dsurfaces ex_shell (ss_desktop_surface ex_child)) \<noteq> Some [] \<and>
   parent_chain (surfaces ex_shell) 11 10 \<and>
   kiosk_shell_surface_set_normal 11 ex_shell \<noteq> None \<and>
   kiosk_shell_surface_set_normal 11 (the (kiosk_shell_surface_set_normal 11 ex_shell)) =
     Some ((the (kiosk_shell_surface_set_normal 11 ex_shell))\<lparr>commands :=
       [Set_fullscreen 11 False, Set_maximized 11 False, Set_size 11 0 0,
        Set_fullscreen 11 False, Set_maximized 11 False, Set_size 11 0 0]\<rparr>)"
proof -
  have h: "surfaces ex_shell 11 = Some ex_child"
    "ds_app_id (dsurfaces ex_shell (ss_desktop_surface ex_child)) \<noteq> Some []"
    "ss_desktop_surface ex_child = 11" "commands ex_shell = []"
    by (simp_all add: ex_shell_def ex_child_def no_dsurface_def)
  from set_normal_idempotent[OF h(1), where root = 10
      and ?s1.0 = "the (kiosk_shell_surface_set_normal 11 ex_shell)"] h ex_shell_chain
  show ?thesis
    by (auto simp: normal_trace_def)
qed

section \<open>Requests on a window that has a parent\<close>


lemma sized_simps [simp]:
  "surfaces (sized d out s) = surfaces s"
  "outputs (sized d out s) = outputs s"
  "output_list (sized d out s) = output_list s"
  "shseats (sized d out s) = shseats s"
  "seat_list (sized d out s) = seat_list s"
  "focused_output (sized d out s) = focused_output s"
  "default_output (sized d out s) = default_output s"
  "ds_app_id (dsurfaces (sized d out s) e) = ds_app_id (dsurfaces s e)"
  "ds_user_data (dsurfaces (sized d out s) e) = ds_user_data (dsurfaces s e)"
  "ds_fullscreen (dsurfaces (sized d out s) e) = ds_fullscreen (dsurfaces s e)"
  "ds_maximized (dsurfaces (sized d out s) e) = ds_maximized (dsurfaces s e)"
  "e \<noteq> d \<Longrightarrow> dsurfaces (sized d out s) e = dsurfaces s e"
  by (simp_all add: sized_def command_defs split: option.splits)

lemma normal_commands_flags [simp]:
  "ds_fullscreen (dsurfaces (normal_commands d s) e) = (e \<noteq> d \<and> ds_fullscreen (dsurfaces s e))"
  "ds_maximized (dsurfaces (normal_commands d s) e) = (e \<noteq> d \<and> ds_maximized (dsurfaces s e))"
  "ds_size (dsurfaces (normal_commands d s) d) = (0, 0)"
  "e \<noteq> d \<Longrightarrow> dsurfaces (normal_commands d s) e = dsurfaces s e"
  by (simp_all add: normal_commands_def command_defs)

lemma set_fullscreen_cmd_simps [simp]:
  "surfaces (weston_desktop_surface_set_fullscreen d b s) = surfaces s"
  "ds_fullscreen (dsurfaces (weston_desktop_surface_set_fullscreen d b s) e) =
     (if e = d then b else ds_fullscreen (dsurfaces s e))"
  "ds_maximized (dsurfaces (weston_desktop_surface_set_fullscreen d b s) e) = ds_maximized (dsurfaces s e)"
  "ds_user_data (dsurfaces (weston_desktop_surface_set_fullscreen d b s) e) = ds_user_data (dsurfaces s e)"
  "ds_app_id (dsurfaces (weston_desktop_surface_set_fullscreen d b s) e) = ds_app_id (dsurfaces s e)"
  "e \<noteq> d \<Longrightarrow> dsurfaces (weston_desktop_surface_set_fullscreen d b s) e = dsurfaces s e"
  by (simp_all add: command_defs)

lemma set_maximized_cmd_simps [simp]:
  "surfaces (weston_desktop_surface_set_maximized d b s) = surfaces s"
  "ds_maximized (dsurfaces (weston_desktop_surface_set_maximized d b s) e) =
     (if e = d then b else ds_maximized (dsurfaces s e))"
  "ds_fullscreen (dsurfaces (weston_desktop_surface_set_maximized d b s) e) = ds_fullscreen (dsurfaces s e)"
  "ds_user_data (dsurfaces (weston_desktop_surface_set_maximized d b s) e) = ds_user_data (dsurfaces s e)"
  "ds_app_id (dsurfaces (weston_desktop_surface_set_maximized d b s) e) = ds_app_id (dsurfaces s e)"
  "e \<noteq> d \<Longrightarrow> dsurfaces (weston_desktop_surface_set_maximized d b s) e = dsurfaces s e"
  by (simp_all add: command_defs)

lemma window_state_Some:
  "surfaces s p = Some x \<Longrightarrow> window_state (Some s) p = Some (ss_parent x, placement_of s x)"
  by (simp add: window_state_def)

lemma find_best_output_bound:
  "surfaces s p = Some x \<Longrightarrow> ss_output x = Some out \<Longrightarrow>
   kiosk_shell_surface_find_best_output s p = Some (Some out)"
  by (simp add: kiosk_shell_surface_find_best_output_def)

text \<open>
  Claim C4, as the code has it. For a window with a parent, a fullscreen request with
  argument true that names an output makes the window Fullscreen, bound to that output.
  When the window has an output of its own, or its application identifier is not the empty
  string and its parent chain is finite, the best-output selection returns and: a
  fullscreen or maximize request with argument false ends in Normal placement, the window
  bound to the best output (its own, if it has one); a fullscreen request with argument
  true that names no output makes the window Fullscreen, bound to the best output; and a
  maximize request with argument true binds the window to the best output and sets its
  maximized flag, so that it is Maximized unless it was fullscreen already.
\<close>

theorem parented_window_requests:
  assumes "ds_user_data (dsurfaces s d) = Some p"
      and "surfaces s p = Some x"
      and "ss_parent x \<noteq> None"
  shows
   "window_state (desktop_surface_fullscreen_requested d True (Some out) s) p =
      Some (ss_parent x, Fullscreen) \<and>
    bound_output (desktop_surface_fullscreen_requested d True (Some out) s) p = Some (Some out) \<and>
    (ss_output x \<noteq> None \<or>
     ds_app_id (dsurfaces s (ss_desktop_surface x)) \<noteq> Some [] \<and>
     parent_chain (surfaces s) p root \<longrightarrow>
     (\<exists>best. kiosk_shell_surface_find_best_output s p = Some best \<and>
        window_state (desktop_surface_fullscreen_requested d False output s) p =
          Some (ss_parent x, Normal) \<and>
        bound_output (desktop_surface_fullscreen_requested d False output s) p = Some best \<and>
        window_state (desktop_surface_maximized_requested d False s) p =
          Some (ss_parent x, Normal) \<and>
        bound_output (desktop_surface_maximized_requested d False s) p = Some best \<and>
        window_state (desktop_surface_fullscreen_requested d True None s) p =
          Some (ss_parent x, Fullscreen) \<and>
        bound_output (desktop_surface_fullscreen_requested d True None s) p = Some best \<and>
        window_state (desktop_surface_maximized_requested d True s) p =
          Some (ss_parent x,
            if ds_fullscreen (dsurfaces s (ss_desktop_surface x)) then Fullscreen
            else Maximized) \<and>
        bound_output (desktop_surface_maximized_requested d True s) p = Some best))"
proof -
  have fr: "desktop_surface_fullscreen_requested d True output' s =
      kiosk_shell_surface_set_fullscreen p output' s" for output'
    using assms by (simp add: desktop_surface_fullscreen_requested_def)
  have ff: "desktop_surface_fullscreen_requested d False output s =
      kiosk_shell_surface_set_normal p s"
    using assms by (auto simp: desktop_surface_fullscreen_requested_def)
  have mt: "desktop_surface_maximized_requested d True s = kiosk_shell_surface_set_maximized p s"
    using assms by (auto simp: desktop_surface_maximized_requested_def)
  have mf: "desktop_surface_maximized_requested d False s = kiosk_shell_surface_set_normal p s"
    using assms by (auto simp: desktop_surface_maximized_requested_def)
  have named: "window_state (kiosk_shell_surface_set_fullscreen p (Some out) s) p =
      Some (ss_parent x, Fullscreen) \<and>
    bound_output (kiosk_shell_surface_set_fullscreen p (Some out) s) p = Some (Some out)"
    using set_fullscreen_Some[OF assms(2), of "Some out" "Some out"]
    by (simp add: window_state_def placement_of_def bound_output_def)
  have rest: "\<exists>best. kiosk_shell_surface_find_best_output s p = Some best \<and>
        window_state (kiosk_shell_surface_set_normal p s) p = Some (ss_parent x, Normal) \<and>
        bound_output (kiosk_shell_surface_set_normal p s) p = Some best \<and>
        window_state (kiosk_shell_surface_set_fullscreen p None s) p =
          Some (ss_parent x, Fullscreen) \<and>
        bound_output (kiosk_shell_surface_set_fullscreen p None s) p = Some best \<and>
        window_state (kiosk_shell_surface_set_maximized p s) p =
          Some (ss_parent x,
            if ds_fullscreen (dsurfaces s (ss_desktop_surface x)) then Fullscreen
            else Maximized) \<and>
        bound_output (kiosk_shell_surface_set_maximized p s) p = Some best"
    if h: "ss_output x \<noteq> None \<or>
     ds_app_id (dsurfaces s (ss_desktop_surface x)) \<noteq> Some [] \<and>
     parent_chain (surfaces s) p root"
  proof -
    have "\<exists>best. kiosk_shell_surface_find_best_output s p = Some best"
    proof (cases "ss_output x")
      case (Some a)
      with find_best_output_bound[OF assms(2)] show ?thesis by simp
    next
      case None
      with h find_best_output_returns[OF assms(2), of root] show ?thesis by auto
    qed
    then obtain best where best: "kiosk_shell_surface_find_best_output s p = Some best"
      by blast
    have normal: "window_state (kiosk_shell_surface_set_normal p s) p = Some (ss_parent x, Normal) \<and>
        bound_output (kiosk_shell_surface_set_normal p s) p = Some best"
    proof (cases "ss_output x")
      case None
      from set_normal_unbound[OF assms(2) None best] show ?thesis
        by (simp add: window_state_def placement_of_def bound_output_def)
    next
      case (Some a)
      with find_best_output_bound[OF assms(2) Some] best have "best = Some a" by simp
      with Some set_normal_bound[OF assms(2)] assms(2) show ?thesis
        by (simp add: window_state_def placement_of_def bound_output_def)
    qed
    have full: "window_state (kiosk_shell_surface_set_fullscreen p None s) p =
          Some (ss_parent x, Fullscreen) \<and>
        bound_output (kiosk_shell_surface_set_fullscreen p None s) p = Some best"
      using set_fullscreen_Some[OF assms(2), of None best] best
      by (simp add: window_state_def placement_of_def bound_output_def)
    have maxi: "window_state (kiosk_shell_surface_set_maximized p s) p =
          Some (ss_parent x,
            if ds_fullscreen (dsurfaces s (ss_desktop_surface x)) then Fullscreen
            else Maximized) \<and>
        bound_output (kiosk_shell_surface_set_maximized p s) p = Some best"
      using set_maximized_Some[OF assms(2) best]
      by (simp add: window_state_def placement_of_def bound_output_def)
    from best normal full maxi show ?thesis by blast
  qed
  from named rest show ?thesis
    unfolding fr ff mt mf by blast
qed

lemma ex_best_child: "kiosk_shell_surface_find_best_output ex_shell 11 = Some (Some 1)"
proof -
  have d: "has_app_id_loop ''vlc,kiosk-app'' ''dialog'' 0 = Some False" by code_simp
  show ?thesis
    using d parent_chain_root[OF ex_shell_chain]
    by (simp add: kiosk_shell_surface_find_best_output_def kiosk_shell_output_has_app_id_def)
       (simp add: ex_shell_def ex_child_def ex_root_def no_dsurface_def
          kiosk_shell_output_has_app_id_def)
qed

theorem parented_window_requests_witness:
  "ds_user_data (dsurfaces ex_shell 11) = Some 11 \<and>
   surfaces ex_shell 11 = Some ex_child \<and>
   ss_parent ex_child \<noteq> None \<and>
   ds_app_id (dsurfaces ex_shell (ss_desktop_surface ex_child)) \<noteq> Some [] \<and>
   parent_chain (surfaces ex_shell) 11 10 \<and>
   window_state (desktop_surface_fullscreen_requested 11 True (Some 2) ex_shell) 11 =
     Some (Some 10, Fullscreen) \<and>
   bound_output (desktop_surface_fullscreen_requested 11 True (Some 2) ex_shell) 11 =
     Some (Some 2) \<and>
   kiosk_shell_surface_find_best_output ex_shell 11 = Some (Some 1) \<and>
   window_state (desktop_surface_fullscreen_requested 11 False None ex_shell) 11 =
     Some (Some 10, Normal) \<and>
   bound_output (desktop_surface_fullscreen_requested 11 False None ex_shell) 11 =
     Some (Some 1) \<and>
   window_state (desktop_surface_maximized_requested 11 False ex_shell) 11 =
     Some (Some 10, Normal) \<and>
   bound_output (desktop_surface_maximized_requested 11 False ex_shell) 11 = Some (Some 1) \<and>
   window_state (desktop_surface_fullscreen_requested 11 True None ex_shell) 11 =
     Some (Some 10, Fullscreen) \<and>
   bound_output (desktop_surface_fullscreen_requested 11 True None ex_shell) 11 =
     Some (Some 1) \<and>
   window_state (desktop_surface_maximized_requested 11 True ex_shell) 11 =
     Some (Some 10, Maximized) \<and>
   bound_output (desktop_surface_maximized_requested 11 True ex_shell) 11 = Some (Some 1)"
proof -
  have h: "ds_user_data (dsurfaces ex_shell 11) = Some 11"
    "surfaces ex_shell 11 = Some ex_child"
    "ss_parent ex_child \<noteq> None"
    "ds_app_id (dsurfaces ex_shell (ss_desktop_surface ex_child)) \<noteq> Some []"
    "ss_parent ex_child = Some 10"
    "\<not> ds_fullscreen (dsurfaces ex_shell (ss_desktop_surface ex_child))"
    by (simp_all add: ex_shell_def ex_child_def no_dsurface_def)
  from parented_window_requests[OF h(1-3), of 2 10 None] h ex_shell_chain ex_best_child
  show ?thesis by simp
qed

theorem parented_window_requests_counterexample:
  "window_state (desktop_surface_maximized_requested 11 True ex_shell) 11 = Some (Some 10, Maximized) \<and>
   window_state (desktop_surface_fullscreen_requested 11 True None ex_shell) 11 = Some (Some 10, Fullscreen)"
proof -
  have h: "ds_user_data (dsurfaces ex_shell 11) = Some 11"
    "surfaces ex_shell 11 = Some ex_child"
    "ss_parent ex_child = Some 10" "ss_desktop_surface ex_child = 11"
    "\<not> ds_fullscreen (dsurfaces ex_shell 11)"
    by (simp_all add: ex_shell_def ex_child_def no_dsurface_def)
  have "window_state (kiosk_shell_surface_set_maximized 11 ex_shell) 11 = Some (Some 10, Maximized)"
    using set_maximized_Some[OF h(2) ex_best_child] h
    by (simp add: window_state_def placement_of_def)
  moreover have "window_state (kiosk_shell_surface_set_fullscreen 11 None ex_shell) 11 = Some (Some 10, Fullscreen)"
    using set_fullscreen_Some[OF h(2), of None "Some 1"] ex_best_child h
    by (simp add: window_state_def placement_of_def)
  ultimately show ?thesis
    using h by (auto simp: desktop_surface_fullscreen_requested_def desktop_surface_maximized_requested_def)
qed

section \<open>The frame of placement operations and the fullscreen invariant\<close>


lemma placement_frame_refl [simp]: "placement_frame p s s"
  by (simp add: placement_frame_def)

lemma placement_frame_trans:
  assumes "placement_frame p s t" and "placement_frame p t u"
  shows "placement_frame p s u"
proof -
  have ds: "map_option ss_desktop_surface (surfaces t p) = map_option ss_desktop_surface (surfaces s p)"
    using assms(1) by (simp add: placement_frame_def)
  have e: "dsurfaces u e = dsurfaces s e"
    if "\<forall>x. surfaces s p = Some x \<longrightarrow> e \<noteq> ss_desktop_surface x" for e
  proof -
    from that ds have "\<forall>x. surfaces t p = Some x \<longrightarrow> e \<noteq> ss_desktop_surface x"
      by (cases "surfaces s p") auto
    with assms that show ?thesis by (simp add: placement_frame_def)
  qed
  from assms obtain cs cs' where "commands t = commands s @ cs" "commands u = commands t @ cs'"
    by (auto simp: placement_frame_def)
  then have "commands u = commands s @ (cs @ cs')" by simp
  then have c: "\<exists>cs. commands u = commands s @ cs" by blast
  from assms e c show ?thesis
    unfolding placement_frame_def by simp
qed

lemma upd_surface_frame:
  assumes "upd_surface q f s = Some s'"
      and "\<And>y. ss_desktop_surface (f y) = ss_desktop_surface y"
      and "\<And>y. ss_view (f y) = ss_view y"
      and "q = p \<or> (\<forall>y. ss_parent (f y) = ss_parent y)"
  shows "placement_frame p s s'"
  using assms
  by (auto simp: upd_surface_def placement_frame_def split: option.splits)

lemma rebound_frame:
  "surfaces s p = Some x \<Longrightarrow> placement_frame p s (rebound p x out s)"
  by (auto simp: placement_frame_def)

lemma sized_frame:
  "surfaces s p = Some x \<Longrightarrow> placement_frame p s (sized (ss_desktop_surface x) out s)"
  by (auto simp: placement_frame_def sized_def command_defs split: option.splits)

lemma normal_commands_frame:
  "surfaces s p = Some x \<Longrightarrow> placement_frame p s (normal_commands (ss_desktop_surface x) s)"
  by (auto simp: placement_frame_def)

lemma fullscreen_cmd_frame:
  "surfaces s p = Some x \<Longrightarrow>
   placement_frame p s (weston_desktop_surface_set_fullscreen (ss_desktop_surface x) b s)"
  by (auto simp: placement_frame_def) (simp add: command_defs)

lemma maximized_cmd_frame:
  "surfaces s p = Some x \<Longrightarrow>
   placement_frame p s (weston_desktop_surface_set_maximized (ss_desktop_surface x) b s)"
  by (auto simp: placement_frame_def) (simp add: command_defs)


lemma set_fullscreen_cases:
  assumes "kiosk_shell_surface_set_fullscreen p output s = Some s'"
  obtains x out where "surfaces s p = Some x"
    "(case output of None \<Rightarrow> kiosk_shell_surface_find_best_output s p
      | Some out \<Rightarrow> Some (Some out)) = Some out"
    "s' = sized (ss_desktop_surface x) out
            (weston_desktop_surface_set_fullscreen (ss_desktop_surface x) True
              (rebound p x out s))"
proof (cases "surfaces s p")
  case None
  with assms show ?thesis
    by (auto simp: kiosk_shell_surface_set_fullscreen_def kiosk_shell_surface_set_output_def
        upd_surface_None split: bind_splits)
next
  case (Some x)
  show ?thesis
  proof (cases "case output of None \<Rightarrow> kiosk_shell_surface_find_best_output s p
      | Some out \<Rightarrow> Some (Some out)")
    case None
    with assms show ?thesis
      by (simp add: kiosk_shell_surface_set_fullscreen_def)
  next
    case (Some out)
    with \<open>surfaces s p = Some x\<close> assms set_fullscreen_Some[of s p x "output" out] that[of x out]
    show ?thesis by simp
  qed
qed

lemma set_maximized_cases:
  assumes "kiosk_shell_surface_set_maximized p s = Some s'"
  obtains x out where "surfaces s p = Some x"
    "kiosk_shell_surface_find_best_output s p = Some out"
    "s' = sized (ss_desktop_surface x) out
            (weston_desktop_surface_set_maximized (ss_desktop_surface x) True
              (rebound p x out s))"
proof (cases "surfaces s p")
  case None
  with assms show ?thesis
    by (auto simp: kiosk_shell_surface_set_maximized_def kiosk_shell_surface_set_output_def
        upd_surface_None split: bind_splits)
next
  case (Some x)
  show ?thesis
  proof (cases "kiosk_shell_surface_find_best_output s p")
    case None
    with assms show ?thesis
      by (simp add: kiosk_shell_surface_set_maximized_def)
  next
    case (Some out)
    with \<open>surfaces s p = Some x\<close> assms set_maximized_Some[of s p x out] that[of x out]
    show ?thesis by simp
  qed
qed

lemma commands_sized: "\<exists>cs. commands (sized d out s) = commands s @ cs"
  by (simp add: sized_def command_defs split: option.splits)

lemma set_fullscreen_result:
  assumes "kiosk_shell_surface_set_fullscreen p output s = Some s'"
      and "surfaces s p = Some x"
  shows "placement_frame p s s'"
    and "map_option ss_parent (surfaces s' p) = Some (ss_parent x)"
    and "ds_fullscreen (dsurfaces s' (ss_desktop_surface x))"
proof -
  from assms(1) obtain x' out where r: "surfaces s p = Some x'"
    "s' = sized (ss_desktop_surface x') out
            (weston_desktop_surface_set_fullscreen (ss_desktop_surface x') True
              (rebound p x' out s))"
    by (rule set_fullscreen_cases)
  with assms(2) have [simp]: "x' = x" by simp
  let ?t = "weston_desktop_surface_set_fullscreen (ss_desktop_surface x) True (rebound p x out s)"
  have "placement_frame p s (rebound p x out s)"
    using assms(2) by (rule rebound_frame)
  moreover have "placement_frame p (rebound p x out s) ?t"
    using fullscreen_cmd_frame[of "rebound p x out s" p
        "x\<lparr>ss_output := out, ss_output_destroy_listener := (out \<noteq> None)\<rparr>" True]
    by simp
  moreover have "placement_frame p ?t (sized (ss_desktop_surface x) out ?t)"
    using sized_frame[of ?t p "x\<lparr>ss_output := out, ss_output_destroy_listener := (out \<noteq> None)\<rparr>" out]
    by simp
  ultimately show "placement_frame p s s'"
    using r(2) by (auto intro: placement_frame_trans)
  from r(2) show "map_option ss_parent (surfaces s' p) = Some (ss_parent x)"
    and "ds_fullscreen (dsurfaces s' (ss_desktop_surface x))"
    by simp_all
qed

lemma set_maximized_result:
  assumes "kiosk_shell_surface_set_maximized p s = Some s'"
      and "surfaces s p = Some x"
  shows "placement_frame p s s'"
    and "map_option ss_parent (surfaces s' p) = Some (ss_parent x)"
    and "ds_fullscreen (dsurfaces s' (ss_desktop_surface x)) =
         ds_fullscreen (dsurfaces s (ss_desktop_surface x))"
proof -
  from assms(1) obtain x' out where r: "surfaces s p = Some x'"
    "s' = sized (ss_desktop_surface x') out
            (weston_desktop_surface_set_maximized (ss_desktop_surface x') True
              (rebound p x' out s))"
    by (rule set_maximized_cases)
  with assms(2) have [simp]: "x' = x" by simp
  let ?t = "weston_desktop_surface_set_maximized (ss_desktop_surface x) True (rebound p x out s)"
  have "placement_frame p s (rebound p x out s)"
    using assms(2) by (rule rebound_frame)
  moreover have "placement_frame p (rebound p x out s) ?t"
    using maximized_cmd_frame[of "rebound p x out s" p
        "x\<lparr>ss_output := out, ss_output_destroy_listener := (out \<noteq> None)\<rparr>" True]
    by simp
  moreover have "placement_frame p ?t (sized (ss_desktop_surface x) out ?t)"
    using sized_frame[of ?t p "x\<lparr>ss_output := out, ss_output_destroy_listener := (out \<noteq> None)\<rparr>" out]
    by simp
  ultimately show "placement_frame p s s'"
    using r(2) by (auto intro: placement_frame_trans)
  from r(2) show "map_option ss_parent (surfaces s' p) = Some (ss_parent x)"
    and "ds_fullscreen (dsurfaces s' (ss_desktop_surface x)) =
         ds_fullscreen (dsurfaces s (ss_desktop_surface x))"
    by simp_all
qed

lemma set_normal_result:
  assumes "kiosk_shell_surface_set_normal p s = Some s'"
      and "surfaces s p = Some x"
  shows "placement_frame p s s'"
    and "map_option ss_parent (surfaces s' p) = Some (ss_parent x)"
    and "\<not> ds_fullscreen (dsurfaces s' (ss_desktop_surface x))"
proof -
  have "placement_frame p s s' \<and> map_option ss_parent (surfaces s' p) = Some (ss_parent x) \<and>
      \<not> ds_fullscreen (dsurfaces s' (ss_desktop_surface x))"
    using assms(1)
  proof (cases rule: set_normal_cases)
    case (1 x')
    with assms(2) have [simp]: "x' = x" by simp
    from 1 assms(2) normal_commands_frame[OF assms(2)] show ?thesis by simp
  next
    case (2 x' out)
    with assms(2) have [simp]: "x' = x" by simp
    have "placement_frame p s (rebound p x out s)"
      using assms(2) by (rule rebound_frame)
    moreover have "placement_frame p (rebound p x out s)
        (normal_commands (ss_desktop_surface x) (rebound p x out s))"
      using normal_commands_frame[of "rebound p x out s" p
          "x\<lparr>ss_output := out, ss_output_destroy_listener := (out \<noteq> None)\<rparr>"]
      by simp
    ultimately have "placement_frame p s s'"
      using 2(4) by (auto intro: placement_frame_trans)
    with 2 show ?thesis by simp
  qed
  then show "placement_frame p s s'"
    and "map_option ss_parent (surfaces s' p) = Some (ss_parent x)"
    and "\<not> ds_fullscreen (dsurfaces s' (ss_desktop_surface x))"
    by simp_all
qed


lemma upd_surface_at:
  assumes "upd_surface q f s = Some s'"
  shows "surfaces s' r = (if r = q then map_option f (surfaces s q) else surfaces s r)"
  using assms by (auto simp: upd_surface_def split: option.splits)

lemma parent_listener_remove_frame:
  assumes "parent_listener_remove p s = Some s'" and "surfaces s p = Some x"
  shows "placement_frame p s s'"
    and "\<exists>x'. surfaces s' p = Some x' \<and> ss_desktop_surface x' = ss_desktop_surface x"
proof -
  from assms obtain q s1 where q: "ss_parent x = Some q"
    and s1: "upd_surface q (\<lambda>y. y\<lparr>ss_destroy_signal := remove1 p (ss_destroy_signal y)\<rparr>) s = Some s1"
    and s': "upd_surface p (\<lambda>y. y\<lparr>ss_parent_destroy_listener := False\<rparr>) s1 = Some s'"
    by (auto simp: parent_listener_remove_def split: bind_splits)
  have "placement_frame p s s1"
    using s1 by (rule upd_surface_frame) simp_all
  moreover have "placement_frame p s1 s'"
    using s' by (rule upd_surface_frame) simp_all
  ultimately show "placement_frame p s s'"
    by (rule placement_frame_trans)
  from upd_surface_at[OF s1, of p] upd_surface_at[OF s', of p] assms(2)
  show "\<exists>x'. surfaces s' p = Some x' \<and> ss_desktop_surface x' = ss_desktop_surface x"
    by (auto split: if_splits)
qed

lemma set_parent_result:
  assumes "kiosk_shell_surface_set_parent p parent s = Some s'"
      and "surfaces s p = Some x"
  shows "placement_frame p s s'"
    and "map_option ss_parent (surfaces s' p) = Some parent"
    and "ds_fullscreen (dsurfaces s' (ss_desktop_surface x)) = (parent = None)"
proof -
  let ?d = "ss_desktop_surface x"
  from assms obtain s1 s2 where
    s1: "(if ss_parent_destroy_listener x then parent_listener_remove p s else Some s) = Some s1"
    and s2: "upd_surface p (\<lambda>y. y\<lparr>ss_parent := parent\<rparr>) s1 = Some s2"
    and rest: "(case parent of
          Some q \<Rightarrow>
            do {
              s3 \<leftarrow> upd_surface p (\<lambda>y. y\<lparr>ss_parent_destroy_listener := True\<rparr>) s2;
              s4 \<leftarrow> upd_surface q (\<lambda>y. y\<lparr>ss_destroy_signal := ss_destroy_signal y @ [p]\<rparr>) s3;
              s5 \<leftarrow> kiosk_shell_surface_set_output p None s4;
              kiosk_shell_surface_set_normal p s5
            }
        | None \<Rightarrow>
            do {
              y \<leftarrow> surfaces s2 p;
              kiosk_shell_surface_set_fullscreen p (ss_output y) s2
            }) = Some s'"
    by (auto simp: kiosk_shell_surface_set_parent_def split: bind_splits)
  have f1: "placement_frame p s s1"
    and x1: "\<exists>x1. surfaces s1 p = Some x1 \<and> ss_desktop_surface x1 = ?d"
    using s1 assms(2) parent_listener_remove_frame[of p s s1 x]
    by (auto split: if_splits)
  then obtain x1 where x1: "surfaces s1 p = Some x1" "ss_desktop_surface x1 = ?d" by blast
  have f2: "placement_frame p s1 s2"
    using s2 by (rule upd_surface_frame) simp_all
  from upd_surface_at[OF s2, of p] x1
  have x2: "surfaces s2 p = Some (x1\<lparr>ss_parent := parent\<rparr>)" by simp
  have "placement_frame p s2 s' \<and> map_option ss_parent (surfaces s' p) = Some parent \<and>
      ds_fullscreen (dsurfaces s' ?d) = (parent = None)"
  proof (cases parent)
    case None
    with rest x2 have fs: "kiosk_shell_surface_set_fullscreen p (ss_output x1) s2 = Some s'"
      by simp
    from set_fullscreen_result[OF fs x2] x1 None show ?thesis by simp
  next
    case (Some q)
    with rest obtain s3 s4 s5 where
      s3: "upd_surface p (\<lambda>y. y\<lparr>ss_parent_destroy_listener := True\<rparr>) s2 = Some s3"
      and s4: "upd_surface q (\<lambda>y. y\<lparr>ss_destroy_signal := ss_destroy_signal y @ [p]\<rparr>) s3 = Some s4"
      and s5: "kiosk_shell_surface_set_output p None s4 = Some s5"
      and sn: "kiosk_shell_surface_set_normal p s5 = Some s'"
      by (auto split: bind_splits)
    have f3: "placement_frame p s2 s3"
      using s3 by (rule upd_surface_frame) simp_all
    have f4: "placement_frame p s3 s4"
      using s4 by (rule upd_surface_frame) simp_all
    from upd_surface_at[OF s3, of p] x2 x1(2) obtain x3 where
      x3: "surfaces s3 p = Some x3" "ss_parent x3 = parent" "ss_desktop_surface x3 = ?d"
      by auto
    from upd_surface_at[OF s4, of p] x3 obtain x4 where
      x4: "surfaces s4 p = Some x4" "ss_parent x4 = parent" "ss_desktop_surface x4 = ?d"
      by (cases "p = q") auto
    from s5 set_output_rebound[OF x4(1), of None]
    have s5_eq: "s5 = rebound p x4 None s4" by simp
    have f5: "placement_frame p s4 s5"
      unfolding s5_eq using x4(1) by (rule rebound_frame)
    have x5: "surfaces s5 p = Some (x4\<lparr>ss_output := None, ss_output_destroy_listener := False\<rparr>)"
      by (simp add: s5_eq)
    from set_normal_result[OF sn x5] x4 have
      f6: "placement_frame p s5 s'"
      and r: "map_option ss_parent (surfaces s' p) = Some parent"
        "\<not> ds_fullscreen (dsurfaces s' ?d)"
      by simp_all
    from f3 f4 f5 f6 have "placement_frame p s2 s'"
      by (blast intro: placement_frame_trans)
    with r Some show ?thesis by simp
  qed
  with f1 f2 show "placement_frame p s s'"
    and "map_option ss_parent (surfaces s' p) = Some parent"
    and "ds_fullscreen (dsurfaces s' ?d) = (parent = None)"
    by (blast intro: placement_frame_trans)+
qed


lemma placement_fullscreen_iff:
  "placement_of s x = Fullscreen \<longleftrightarrow> ds_fullscreen (dsurfaces s (ss_desktop_surface x))"
  by (simp add: placement_of_def)

lemma invariant_step:
  assumes inv: "child_not_fullscreen s" "ds_unshared s"
    and x: "surfaces s p = Some x"
    and fr: "placement_frame p s s'"
    and P: "\<And>x'. surfaces s' p = Some x' \<Longrightarrow> ss_parent x' \<noteq> None \<Longrightarrow>
              \<not> ds_fullscreen (dsurfaces s' (ss_desktop_surface x))"
  shows "child_not_fullscreen s' \<and> ds_unshared s'"
proof
  have ds: "map_option ss_desktop_surface (surfaces s' q) = map_option ss_desktop_surface (surfaces s q)" for q
    using fr by (simp add: placement_frame_def)
  have old: "\<exists>y0. surfaces s q = Some y0 \<and> ss_desktop_surface y0 = ss_desktop_surface y"
    if "surfaces s' q = Some y" for q y
    using ds[of q] that by (cases "surfaces s q") auto
  show "ds_unshared s'"
    unfolding ds_unshared_def
  proof (intro allI impI)
    fix q r y z
    assume a: "surfaces s' q = Some y \<and> surfaces s' r = Some z \<and>
      ss_desktop_surface y = ss_desktop_surface z"
    with old[of q y] old[of r z] inv(2) show "q = r"
      unfolding ds_unshared_def by metis
  qed
  show "child_not_fullscreen s'"
    unfolding child_not_fullscreen_def
  proof (intro allI impI)
    fix q y
    assume a: "surfaces s' q = Some y \<and> ss_parent y \<noteq> None"
    from old[of q y] a obtain y0 where y0: "surfaces s q = Some y0"
      "ss_desktop_surface y0 = ss_desktop_surface y" by auto
    show "placement_of s' y \<noteq> Fullscreen"
    proof (cases "q = p")
      case True
      with y0 x have "ss_desktop_surface y = ss_desktop_surface x" by simp
      with P[of y] a True show ?thesis by (simp add: placement_of_def)
    next
      case False
      with fr have "map_option ss_parent (surfaces s' q) = map_option ss_parent (surfaces s q)"
        by (simp add: placement_frame_def)
      with a y0 have par: "ss_parent y0 \<noteq> None" by auto
      from False y0 x inv(2) have "ss_desktop_surface y0 \<noteq> ss_desktop_surface x"
        unfolding ds_unshared_def by metis
      with fr x have "dsurfaces s' (ss_desktop_surface y0) = dsurfaces s (ss_desktop_surface y0)"
        by (simp add: placement_frame_def)
      moreover from inv(1) y0 par have "placement_of s y0 \<noteq> Fullscreen"
        unfolding child_not_fullscreen_def by blast
      ultimately show ?thesis
        using y0(2) by (auto simp: placement_of_def split: if_splits)
    qed
  qed
qed

section \<open>Keyboard focus: the count of focusing seats\<close>


lemma seat_window_focused:
  "seat_window s seat =
     (case shseats s seat of None \<Rightarrow> None
      | Some shseat \<Rightarrow> focused_window s (seat_focused_surface shseat))"
  by (simp add: seat_window_def focused_window_def split: option.splits)

lemma focus_leave_result:
  assumes "focus_leave fs s = Some s1"
  shows "map_option ss_focus_count (surfaces s1 w) =
           map_option (\<lambda>x. if focused_window s fs = Some w then ss_focus_count x - 1
                            else ss_focus_count x) (surfaces s w)"
    and "\<And>e. ds_user_data (dsurfaces s1 e) = ds_user_data (dsurfaces s e)"
    and "surface_desktop s1 = surface_desktop s"
    and "main_surface s1 = main_surface s"
    and "shseats s1 = shseats s"
  using assms
  by (auto simp: focus_leave_def focused_window_def Let_def command_defs
      split: option.splits if_splits)

lemma focus_enter_result:
  assumes "focus_enter fs s = Some s1"
  shows "map_option ss_focus_count (surfaces s1 w) =
           map_option (\<lambda>x. if focused_window s fs = Some w then ss_focus_count x + 1
                            else ss_focus_count x) (surfaces s w)"
    and "\<And>e. ds_user_data (dsurfaces s1 e) = ds_user_data (dsurfaces s e)"
    and "surface_desktop s1 = surface_desktop s"
    and "main_surface s1 = main_surface s"
    and "shseats s1 = shseats s"
  using assms
  by (auto simp: focus_enter_def focused_window_def Let_def command_defs
      split: option.splits if_splits)

lemma focused_window_agree:
  assumes "\<And>e. ds_user_data (dsurfaces s' e) = ds_user_data (dsurfaces s e)"
      and "surface_desktop s' = surface_desktop s"
  shows "focused_window s' fs = focused_window s fs"
  using assms
  by (simp add: focused_window_def get_kiosk_shell_surface_def split: option.splits)

lemma handle_keyboard_focus_result:
  assumes "kiosk_shell_seat_handle_keyboard_focus seat focus s = Some s'"
  shows "\<exists>shseat. shseats s seat = Some shseat"
    and "seat_window s' =
           (seat_window s)(seat := focused_window s (map_option (main_surface s) focus))"
    and "map_option ss_focus_count (surfaces s' w) =
           map_option (\<lambda>x. ss_focus_count x - (if seat_window s seat = Some w then 1 else 0)
                            + (if focused_window s (map_option (main_surface s) focus) = Some w
                               then 1 else 0))
             (surfaces s w)"
    and "dom (shseats s') = dom (shseats s)"
proof -
  from assms obtain shseat where sh: "shseats s seat = Some shseat"
    by (auto simp: kiosk_shell_seat_handle_keyboard_focus_def split: option.splits)
  then show "\<exists>shseat. shseats s seat = Some shseat" by blast
  let ?new = "map_option (main_surface s) focus"
  from assms sh obtain s1 where
    s1: "focus_leave (seat_focused_surface shseat) s = Some s1"
    and s': "focus_enter (map_option (main_surface s1) focus)
       (s1\<lparr>shseats := (shseats s1)(seat \<mapsto>
          shseat\<lparr>seat_focused_surface := map_option (main_surface s1) focus\<rparr>)\<rparr>) = Some s'"
    by (auto simp: kiosk_shell_seat_handle_keyboard_focus_def Let_def split: bind_splits)
  note l = focus_leave_result[OF s1]
  let ?s2 = "s1\<lparr>shseats := (shseats s1)(seat \<mapsto> shseat\<lparr>seat_focused_surface := ?new\<rparr>)\<rparr>"
  from s' l(4) have s'': "focus_enter ?new ?s2 = Some s'" by simp
  note e = focus_enter_result[OF s'']
  have fw1: "focused_window s1 fs = focused_window s fs" for fs
    by (rule focused_window_agree) (simp_all add: l)
  have fw2: "focused_window ?s2 fs = focused_window s fs" for fs
    by (rule focused_window_agree) (simp_all add: l)
  have fw': "focused_window s' fs = focused_window s fs" for fs
    using focused_window_agree[of s' ?s2 fs] e fw2[of fs] by simp
  from e(5) l(5) have seats': "shseats s' = (shseats s)(seat \<mapsto> shseat\<lparr>seat_focused_surface := ?new\<rparr>)"
    by simp
  show "seat_window s' = (seat_window s)(seat := focused_window s ?new)"
    by (rule ext) (simp add: seat_window_focused seats' fw' cong: option.case_cong)
  from seats' sh show "dom (shseats s') = dom (shseats s)" by auto
  have old: "seat_window s seat = focused_window s (seat_focused_surface shseat)"
    using sh by (simp add: seat_window_focused)
  show "map_option ss_focus_count (surfaces s' w) =
           map_option (\<lambda>x. ss_focus_count x - (if seat_window s seat = Some w then 1 else 0)
                            + (if focused_window s ?new = Some w then 1 else 0))
             (surfaces s w)"
  proof (cases "surfaces s w")
    case None
    with l(1)[of w] have "surfaces s1 w = None" by simp
    with e(1)[of w] None show ?thesis by simp
  next
    case (Some x)
    with l(1)[of w] obtain x1 where x1: "surfaces s1 w = Some x1"
      "ss_focus_count x1 = (if seat_window s seat = Some w then ss_focus_count x - 1
                            else ss_focus_count x)"
      using old by (cases "surfaces s1 w") auto
    with e(1)[of w] fw2[of ?new] Some show ?thesis
      by (cases "surfaces s' w") auto
  qed
qed


lemma seats_on_finite:
  assumes "finite (dom (shseats s))"
  shows "finite (seats_on s w)"
proof (rule finite_subset[OF _ assms])
  show "seats_on s w \<subseteq> dom (shseats s)"
    by (auto simp: seats_on_def seat_window_def split: option.splits)
qed

lemma seats_on_step:
  assumes "seat_window s' = (seat_window s)(seat := new)"
      and "finite (seats_on s w)"
  shows "int (card (seats_on s' w)) =
           int (card (seats_on s w)) - (if seat_window s seat = Some w then 1 else 0)
             + (if new = Some w then 1 else 0)"
proof -
  have eq: "seats_on s' w =
      (if new = Some w then insert seat (seats_on s w) else seats_on s w - {seat})"
    using assms(1) by (auto simp: seats_on_def)
  have mem: "seat \<in> seats_on s w \<longleftrightarrow> seat_window s seat = Some w"
    by (simp add: seats_on_def)
  show ?thesis
  proof (cases "seat_window s seat = Some w")
    case True
    with mem have in_s: "seat \<in> seats_on s w" by simp
    then have pos: "card (seats_on s w) \<ge> 1"
      using assms(2) by (metis One_nat_def Suc_leI card_gt_0_iff empty_iff)
    show ?thesis
    proof (cases "new = Some w")
      case True
      with eq in_s have "seats_on s' w = seats_on s w" by auto
      with True \<open>seat_window s seat = Some w\<close> show ?thesis by simp
    next
      case False
      with eq have "seats_on s' w = seats_on s w - {seat}" by simp
      with in_s assms(2) pos False \<open>seat_window s seat = Some w\<close> show ?thesis
        by (simp add: card_Diff_singleton of_nat_diff)
    qed
  next
    case False
    with mem have out_s: "seat \<notin> seats_on s w" by simp
    show ?thesis
    proof (cases "new = Some w")
      case True
      with eq have "seats_on s' w = insert seat (seats_on s w)" by simp
      with out_s assms(2) True False show ?thesis by simp
    next
      case n: False
      with eq out_s have "seats_on s' w = seats_on s w" by auto
      with n False show ?thesis by simp
    qed
  qed
qed

lemma handle_keyboard_focus_counted:
  assumes "focus_counted s"
      and "kiosk_shell_seat_handle_keyboard_focus seat focus s = Some s'"
  shows "focus_counted s'"
proof -
  note r = handle_keyboard_focus_result[OF assms(2)]
  from assms(1) have fin: "finite (dom (shseats s))"
    and cnt: "\<And>w x. surfaces s w = Some x \<Longrightarrow> ss_focus_count x = int (card (seats_on s w))"
    by (auto simp: focus_counted_def)
  have "ss_focus_count x' = int (card (seats_on s' w))" if x': "surfaces s' w = Some x'" for w x'
  proof -
    from r(3)[of w] x' obtain x where x: "surfaces s w = Some x"
      and fc: "ss_focus_count x' = ss_focus_count x
          - (if seat_window s seat = Some w then 1 else 0)
          + (if focused_window s (map_option (main_surface s) focus) = Some w then 1 else 0)"
      by (cases "surfaces s w") auto
    from seats_on_step[OF r(2) seats_on_finite[OF fin], of w] cnt[OF x] fc
    show ?thesis by simp
  qed
  with fin r(4) show ?thesis
    by (simp add: focus_counted_def)
qed

lemma focus_events_counted:
  "focus_counted s \<Longrightarrow> focus_events evs s = Some s' \<Longrightarrow> focus_counted s'"
proof (induction evs arbitrary: s)
  case Nil
  then show ?case by simp
next
  case (Cons ev evs)
  obtain seat focus where ev: "ev = (seat, focus)" by (cases ev)
  with Cons.prems(2) obtain s1 where
    s1: "kiosk_shell_seat_handle_keyboard_focus seat focus s = Some s1"
    and rest: "focus_events evs s1 = Some s'"
    by (auto split: option.splits)
  from handle_keyboard_focus_counted[OF Cons.prems(1) s1] rest show ?case
    by (rule Cons.IH)
qed

lemma initial_focus_counted:
  assumes "finite (dom (shseats s))" and "unfocused s"
  shows "focus_counted s"
proof -
  have "seats_on s w = {}" for w
    using assms(2) by (auto simp: unfocused_def seats_on_def seat_window_def split: option.splits)
  with assms show ?thesis
    by (simp add: focus_counted_def unfocused_def)
qed

lemma focus_leave_returns:
  assumes "association_live s"
  shows "\<exists>s1. focus_leave fs s = Some s1 \<and> association_live s1 \<and> shseats s1 = shseats s"
proof (cases "focused_window s fs")
  case None
  with assms show ?thesis
    by (auto simp: focus_leave_def focused_window_def split: option.splits)
next
  case (Some w)
  then obtain surface d where fs: "fs = Some surface" "surface_desktop s surface = Some d"
    "ds_user_data (dsurfaces s d) = Some w"
    by (auto simp: focused_window_def get_kiosk_shell_surface_def split: option.splits)
  with assms obtain x where x: "surfaces s w = Some x"
    by (auto simp: association_live_def)
  with fs Some assms show ?thesis
    by (auto simp: focus_leave_def focused_window_def Let_def association_live_def command_defs)
qed

lemma focus_enter_returns:
  assumes "association_live s"
  shows "\<exists>s1. focus_enter fs s = Some s1 \<and> association_live s1 \<and> shseats s1 = shseats s"
proof (cases "focused_window s fs")
  case None
  with assms show ?thesis
    by (auto simp: focus_enter_def focused_window_def split: option.splits)
next
  case (Some w)
  then obtain surface d where fs: "fs = Some surface" "surface_desktop s surface = Some d"
    "ds_user_data (dsurfaces s d) = Some w"
    by (auto simp: focused_window_def get_kiosk_shell_surface_def split: option.splits)
  with assms obtain x where x: "surfaces s w = Some x"
    by (auto simp: association_live_def)
  with fs Some assms show ?thesis
    by (auto simp: focus_enter_def focused_window_def Let_def association_live_def command_defs)
qed

lemma handle_keyboard_focus_returns:
  assumes "association_live s" and "seat \<in> dom (shseats s)"
  shows "\<exists>s'. kiosk_shell_seat_handle_keyboard_focus seat focus s = Some s' \<and>
           association_live s' \<and> dom (shseats s') = dom (shseats s)"
proof -
  from assms(2) obtain shseat where sh: "shseats s seat = Some shseat" by auto
  from focus_leave_returns[OF assms(1), of "seat_focused_surface shseat"]
  obtain s1 where s1: "focus_leave (seat_focused_surface shseat) s = Some s1"
    "association_live s1" "shseats s1 = shseats s" by blast
  let ?s2 = "s1\<lparr>shseats := (shseats s1)(seat \<mapsto>
          shseat\<lparr>seat_focused_surface := map_option (main_surface s1) focus\<rparr>)\<rparr>"
  from s1(2) have "association_live ?s2" by (simp add: association_live_def)
  from focus_enter_returns[OF this, of "map_option (main_surface s1) focus"]
  obtain s' where s': "focus_enter (map_option (main_surface s1) focus) ?s2 = Some s'"
    "association_live s'" "shseats s' = shseats ?s2" by blast
  from sh s1 s' show ?thesis
    by (auto simp: kiosk_shell_seat_handle_keyboard_focus_def Let_def)
qed

lemma focus_events_return:
  "association_live s \<Longrightarrow> fst ` set evs \<subseteq> dom (shseats s) \<Longrightarrow>
   focus_events evs s \<noteq> None"
proof (induction evs arbitrary: s)
  case Nil
  then show ?case by simp
next
  case (Cons ev evs)
  obtain seat focus where ev: "ev = (seat, focus)" by (cases ev)
  with Cons.prems have "seat \<in> dom (shseats s)" by simp
  from handle_keyboard_focus_returns[OF Cons.prems(1) this, of focus]
  obtain s1 where s1: "kiosk_shell_seat_handle_keyboard_focus seat focus s = Some s1"
    "association_live s1" "dom (shseats s1) = dom (shseats s)" by blast
  with Cons.prems(2) have "fst ` set evs \<subseteq> dom (shseats s1)" by simp
  from Cons.IH[OF s1(2) this] s1(1) ev show ?case by simp
qed

text \<open>
  Claim C5. The property that every window's \<^verbatim>\<open>focus_count\<close> is the number of seats
  whose recorded focused surface resolves to it is kept by every sequence of
  keyboard-focus events, holds in a state where no seat has a focus and all counts are
  zero, and hence after every sequence of events from there; the events all return when
  they are for known seats and every association leads to a live record.
\<close>

theorem focus_count_invariant:
  "(focus_counted s \<and> focus_events evs s = Some s' \<longrightarrow> focus_counted s') \<and>
   (finite (dom (shseats s)) \<and> unfocused s \<and> focus_events evs s = Some s' \<longrightarrow>
      (\<forall>w x. surfaces s' w = Some x \<longrightarrow> ss_focus_count x = int (card (seats_on s' w)))) \<and>
   (association_live s \<and> fst ` set evs \<subseteq> dom (shseats s) \<longrightarrow>
      focus_events evs s \<noteq> None)"
proof -
  have a: "focus_counted s'" if "focus_counted s" "focus_events evs s = Some s'"
    using that by (rule focus_events_counted)
  have b: "\<forall>w x. surfaces s' w = Some x \<longrightarrow> ss_focus_count x = int (card (seats_on s' w))"
    if "finite (dom (shseats s))" "unfocused s" "focus_events evs s = Some s'"
    using focus_events_counted[OF initial_focus_counted[OF that(1,2)] that(3)]
    by (simp add: focus_counted_def)
  have c: "focus_events evs s \<noteq> None"
    if "association_live s" "fst ` set evs \<subseteq> dom (shseats s)"
    using that by (rule focus_events_return)
  from a b c show ?thesis by blast
qed

theorem focus_count_invariant_witness:
  "finite (dom (shseats ex_initial)) \<and> unfocused ex_initial \<and>
   association_live ex_initial \<and> fst ` set ex_swaps \<subseteq> dom (shseats ex_initial) \<and>
   focus_counted ex_initial \<and>
   focus_events ex_swaps ex_initial \<noteq> None \<and>
   focus_counted (the (focus_events ex_swaps ex_initial))"
proof -
  have h: "finite (dom (shseats ex_initial))" "unfocused ex_initial"
    "association_live ex_initial" "fst ` set ex_swaps \<subseteq> dom (shseats ex_initial)"
    by (auto simp: ex_initial_def ex_shell_def ex_root_def ex_child_def ex_swaps_def
        association_live_def unfocused_def no_dsurface_def split: if_splits)
  have c: "focus_counted ex_initial"
    using h(1,2) by (rule initial_focus_counted)
  from focus_count_invariant[of ex_initial ex_swaps "the (focus_events ex_swaps ex_initial)"] h c
  show ?thesis by auto
qed

section \<open>Keyboard focus: the commands of an event\<close>


lemma focus_leave_commands:
  assumes "focus_leave fs s = Some s1"
  shows "commands s1 = commands s @ deactivation s (focused_window s fs)"
    and "map_option ss_desktop_surface (surfaces s1 w) = map_option ss_desktop_surface (surfaces s w)"
  using assms
  by (auto simp: focus_leave_def focused_window_def deactivation_def Let_def command_defs
      split: option.splits if_splits)

lemma focus_enter_commands:
  assumes "focus_enter fs s = Some s1"
  shows "commands s1 = commands s @
     (case focused_window s fs of
        None \<Rightarrow> []
      | Some w \<Rightarrow>
          (case surfaces s w of
             None \<Rightarrow> []
           | Some x \<Rightarrow>
               if ss_focus_count x = 0 then [Set_activated (ss_desktop_surface x) True] else []))"
  using assms
  by (auto simp: focus_enter_def focused_window_def Let_def command_defs
      split: option.splits if_splits)

lemma focus_event_trace:
  assumes "kiosk_shell_seat_handle_keyboard_focus seat focus s = Some s'"
  shows "commands s' = commands s @ deactivation s (seat_window s seat) @
           activation s (seat_window s seat) (focused_window s (map_option (main_surface s) focus))"
proof -
  from assms obtain shseat where sh: "shseats s seat = Some shseat"
    by (auto simp: kiosk_shell_seat_handle_keyboard_focus_def split: option.splits)
  let ?new = "map_option (main_surface s) focus"
  let ?old = "focused_window s (seat_focused_surface shseat)"
  from assms sh obtain s1 where
    s1: "focus_leave (seat_focused_surface shseat) s = Some s1"
    and s': "focus_enter (map_option (main_surface s1) focus)
       (s1\<lparr>shseats := (shseats s1)(seat \<mapsto>
          shseat\<lparr>seat_focused_surface := map_option (main_surface s1) focus\<rparr>)\<rparr>) = Some s'"
    by (auto simp: kiosk_shell_seat_handle_keyboard_focus_def Let_def split: bind_splits)
  note l = focus_leave_result[OF s1] and lc = focus_leave_commands[OF s1]
  let ?s2 = "s1\<lparr>shseats := (shseats s1)(seat \<mapsto> shseat\<lparr>seat_focused_surface := ?new\<rparr>)\<rparr>"
  from s' l(4) have s'': "focus_enter ?new ?s2 = Some s'" by simp
  have fw2: "focused_window ?s2 fs = focused_window s fs" for fs
    by (rule focused_window_agree) (simp_all add: l)
  have old: "seat_window s seat = ?old"
    using sh by (simp add: seat_window_focused)
  have "(case focused_window s ?new of
        None \<Rightarrow> []
      | Some w \<Rightarrow>
          (case surfaces s1 w of
             None \<Rightarrow> []
           | Some x \<Rightarrow>
               if ss_focus_count x = 0 then [Set_activated (ss_desktop_surface x) True] else []))
      = activation s ?old (focused_window s ?new)"
  proof (cases "focused_window s ?new")
    case None
    then show ?thesis by (simp add: activation_def)
  next
    case (Some w)
    show ?thesis
    proof (cases "surfaces s w")
      case None
      with l(1)[of w] have "surfaces s1 w = None" by simp
      with None Some show ?thesis by (simp add: activation_def)
    next
      case sx: (Some x)
      with l(1)[of w] lc(2)[of w] obtain x1 where "surfaces s1 w = Some x1"
        "ss_focus_count x1 = (if ?old = Some w then ss_focus_count x - 1 else ss_focus_count x)"
        "ss_desktop_surface x1 = ss_desktop_surface x"
        by (cases "surfaces s1 w") auto
      with Some sx show ?thesis by (simp add: activation_def)
    qed
  qed
  moreover have "surfaces ?s2 = surfaces s1" "commands ?s2 = commands s1" by simp_all
  ultimately have "commands s' = commands s1 @ activation s ?old (focused_window s ?new)"
    using focus_enter_commands[OF s''] fw2[of ?new]
    by (simp only:)
  with lc(1) old show ?thesis by simp
qed

text \<open>
  Claim C6, as the code has it. On a keyboard-focus event the count of the window of the
  seat's previous focus is decremented whenever that window exists, also when the new
  focus resolves to the same window, and a deactivation is issued when the count reaches
  zero; then the count of the window of the new focus is incremented, with an activation
  when it was zero. When the previous and the new focus resolve to the same window, its
  count is unchanged, and a deactivation followed by an activation is issued if the count
  is one, and nothing otherwise.
\<close>

theorem keyboard_focus_commands:
  assumes "kiosk_shell_seat_handle_keyboard_focus seat focus s = Some s'"
      and "new = focused_window s (map_option (main_surface s) focus)"
  shows
   "commands s' = commands s @ deactivation s (seat_window s seat) @
      activation s (seat_window s seat) new \<and>
    map_option ss_focus_count (surfaces s' w) =
      map_option (\<lambda>x. ss_focus_count x - (if seat_window s seat = Some w then 1 else 0)
                       + (if new = Some w then 1 else 0)) (surfaces s w) \<and>
    (seat_window s seat = Some w \<and> new = Some w \<and> surfaces s w = Some x \<longrightarrow>
       map_option ss_focus_count (surfaces s' w) = Some (ss_focus_count x) \<and>
       commands s' = commands s @
         (if ss_focus_count x = 1
          then [Set_activated (ss_desktop_surface x) False,
                Set_activated (ss_desktop_surface x) True]
          else []))"
proof -
  note c = focus_event_trace[OF assms(1), folded assms(2)]
  note r = handle_keyboard_focus_result(3)[OF assms(1), of w, folded assms(2)]
  have "map_option ss_focus_count (surfaces s' w) = Some (ss_focus_count x) \<and>
       commands s' = commands s @
         (if ss_focus_count x = 1
          then [Set_activated (ss_desktop_surface x) False,
                Set_activated (ss_desktop_surface x) True]
          else [])"
    if "seat_window s seat = Some w" "new = Some w" "surfaces s w = Some x"
    using c r that by (simp add: deactivation_def activation_def)
  with c r show ?thesis by blast
qed

lemma ex_shell_seat0:
  "seat_window ex_shell 0 = Some 10"
  "focused_window ex_shell (map_option (main_surface ex_shell) (Some 10)) = Some 10"
  "surfaces ex_shell 10 = Some ex_root"
  "ss_focus_count ex_root = 1" "ss_desktop_surface ex_root = 10"
  "commands ex_shell = []"
  "association_live ex_shell" "0 \<in> dom (shseats ex_shell)"
  by (auto simp: seat_window_def focused_window_def get_kiosk_shell_surface_def ex_shell_def
      ex_root_def no_dsurface_def association_live_def split: if_splits)

theorem keyboard_focus_commands_witness:
  "kiosk_shell_seat_handle_keyboard_focus 0 (Some 10) ex_shell \<noteq> None \<and>
   seat_window ex_shell 0 = Some 10 \<and>
   focused_window ex_shell (map_option (main_surface ex_shell) (Some 10)) = Some 10 \<and>
   surfaces ex_shell 10 = Some ex_root \<and>
   map_option ss_focus_count
     (surfaces (the (kiosk_shell_seat_handle_keyboard_focus 0 (Some 10) ex_shell)) 10) = Some 1 \<and>
   commands (the (kiosk_shell_seat_handle_keyboard_focus 0 (Some 10) ex_shell)) =
     [Set_activated 10 False, Set_activated 10 True]"
proof -
  from handle_keyboard_focus_returns[OF ex_shell_seat0(7,8), of "Some 10"]
  obtain s' where s': "kiosk_shell_seat_handle_keyboard_focus 0 (Some 10) ex_shell = Some s'"
    by blast
  from keyboard_focus_commands[OF s' refl, of 10 ex_root] ex_shell_seat0 s'
  show ?thesis by auto
qed

theorem refocus_deactivates_counterexample:
  "seat_window ex_shell 0 = Some 10 \<and>
   focused_window ex_shell (map_option (main_surface ex_shell) (Some 10)) = Some 10 \<and>
   issued (kiosk_shell_seat_handle_keyboard_focus 0 (Some 10) ex_shell) =
     Some [Set_activated 10 False, Set_activated 10 True]"
proof -
  from handle_keyboard_focus_returns[OF ex_shell_seat0(7,8), of "Some 10"]
  obtain s' where s': "kiosk_shell_seat_handle_keyboard_focus 0 (Some 10) ex_shell = Some s'"
    by blast
  from focus_event_trace[OF s'] ex_shell_seat0 s'
  show ?thesis by (simp add: issued_def deactivation_def activation_def)
qed

section \<open>The focus successor\<close>


lemma loop_skip:
  "\<not> eligible s sv view \<Longrightarrow>
   focus_successor_loop s sv pr (view # rest) tv = focus_successor_loop s sv pr rest tv"
  by (auto simp: eligible_def)

lemma loop_hit:
  "eligible s sv view \<Longrightarrow> view_root s view = Some pr \<Longrightarrow>
   focus_successor_loop s sv pr (view # rest) tv = Some (Some (wv_ref view))"
  by (auto simp: eligible_def view_root_def)

lemma loop_miss:
  "eligible s sv view \<Longrightarrow> view_root s view = Some root \<Longrightarrow> root \<noteq> pr \<Longrightarrow>
   focus_successor_loop s sv pr (view # rest) tv =
     focus_successor_loop s sv pr rest (if tv = None then Some (wv_ref view) else tv)"
  by (auto simp: eligible_def view_root_def)

lemma focus_successor_loop_spec:
  assumes "roots_defined s layer sv"
  shows "focus_successor_loop s sv pr layer tv =
     Some (case find (\<lambda>view. view_root s view = Some pr) (filter (eligible s sv) layer) of
             Some view \<Rightarrow> Some (wv_ref view)
           | None \<Rightarrow>
               (case tv of
                  Some t \<Rightarrow> Some t
                | None \<Rightarrow>
                    (case filter (eligible s sv) layer of
                       [] \<Rightarrow> None
                     | view # _ \<Rightarrow> Some (wv_ref view))))"
  using assms
proof (induction layer arbitrary: tv)
  case Nil
  then show ?case by (simp split: option.splits)
next
  case (Cons view rest)
  from Cons.prems have rest: "roots_defined s rest sv"
    by (simp add: roots_defined_def)
  note ih = Cons.IH[OF rest]
  show ?case
  proof (cases "eligible s sv view")
    case False
    then have "filter (eligible s sv) (view # rest) = filter (eligible s sv) rest" by simp
    with loop_skip[OF False] ih[of tv] show ?thesis by (simp only:)
  next
    case True
    then have f: "filter (eligible s sv) (view # rest) = view # filter (eligible s sv) rest"
      by simp
    from Cons.prems True obtain root where vr: "view_root s view = Some root"
      by (auto simp: roots_defined_def)
    show ?thesis
    proof (cases "root = pr")
      case True
      with vr loop_hit[OF \<open>eligible s sv view\<close>, of pr rest tv] f show ?thesis by simp
    next
      case False
      with vr have nf: "find (\<lambda>view. view_root s view = Some pr) (view # filter (eligible s sv) rest)
          = find (\<lambda>view. view_root s view = Some pr) (filter (eligible s sv) rest)"
        by simp
      show ?thesis
        unfolding loop_miss[OF \<open>eligible s sv view\<close> vr False] f nf
          ih[of "if tv = None then Some (wv_ref view) else tv"]
        by (cases tv; cases "find (\<lambda>view. view_root s view = Some pr) (filter (eligible s sv) rest)")
           simp_all
    qed
  qed
qed

text \<open>
  Claim C9. \<^verbatim>\<open>find_focus_successor\<close> scans the layer in order, skips the views that
  are unmapped, the removed window's own view and views without a side record, returns
  the first eligible view whose root is the root of the removed window, otherwise the
  first eligible view, and none exactly when no view is eligible. It returns when the
  parent chains of the removed window and of the eligible views are finite.
\<close>

theorem find_focus_successor_spec:
  assumes "surfaces s shsurf = Some x"
      and "parent_chain (surfaces s) shsurf parent_root"
      and "roots_defined s layer (ss_view x)"
  shows "find_focus_successor s layer shsurf =
           Some (spec_focus_successor s layer (ss_view x) parent_root) \<and>
         (find_focus_successor s layer shsurf = Some None \<longleftrightarrow>
            filter (eligible s (ss_view x)) layer = [])"
proof -
  have eq: "find_focus_successor s layer shsurf =
           Some (spec_focus_successor s layer (ss_view x) parent_root)"
    using assms(1) parent_chain_root[OF assms(2)]
      focus_successor_loop_spec[OF assms(3), of parent_root None]
    by (simp add: find_focus_successor_def spec_focus_successor_def cong: option.case_cong)
  have "spec_focus_successor s layer (ss_view x) parent_root = None \<longleftrightarrow>
      filter (eligible s (ss_view x)) layer = []"
    by (auto simp: spec_focus_successor_def find_None_iff split: option.splits list.splits)
  with eq show ?thesis by simp
qed


lemma ex_shell_root_chain: "parent_chain (surfaces ex_shell) 10 10"
  by (rule chain_root[where x = ex_root]) (simp_all add: ex_shell_def ex_root_def)

lemma ex_layer_eligible:
  "filter (eligible ex_shell 11) ex_layer = [\<lparr>wv_ref = 10, wv_is_mapped = True, wv_surface = 10\<rparr>]"
  "filter (eligible ex_shell 10) ex_layer = [\<lparr>wv_ref = 11, wv_is_mapped = True, wv_surface = 11\<rparr>]"
  by (simp_all add: eligible_def ex_layer_def get_kiosk_shell_surface_def ex_shell_def no_dsurface_def)

lemma ex_layer_roots:
  "view_root ex_shell \<lparr>wv_ref = 10, wv_is_mapped = True, wv_surface = 10\<rparr> = Some 10"
  "view_root ex_shell \<lparr>wv_ref = 11, wv_is_mapped = True, wv_surface = 11\<rparr> = Some 10"
  using parent_chain_root[OF ex_shell_root_chain] parent_chain_root[OF ex_shell_chain]
  by (simp_all add: view_root_def get_kiosk_shell_surface_def)
     (simp_all add: ex_shell_def no_dsurface_def)

lemma ex_layer_roots_defined:
  "roots_defined ex_shell ex_layer 11" "roots_defined ex_shell ex_layer 10"
proof -
  have "roots_defined ex_shell ex_layer v" if "filter (eligible ex_shell v) ex_layer = [w]"
    "view_root ex_shell w \<noteq> None" for v w
  proof -
    have "view = w" if "view \<in> set ex_layer" "eligible ex_shell v view" for view
    proof -
      from that have "view \<in> set (filter (eligible ex_shell v) ex_layer)" by simp
      with \<open>filter (eligible ex_shell v) ex_layer = [w]\<close> show ?thesis by simp
    qed
    with that(2) show ?thesis by (auto simp: roots_defined_def)
  qed
  from this[OF ex_layer_eligible(1)] this[OF ex_layer_eligible(2)] ex_layer_roots
  show "roots_defined ex_shell ex_layer 11" "roots_defined ex_shell ex_layer 10"
    by simp_all
qed

theorem find_focus_successor_spec_witness:
  "surfaces ex_shell 11 = Some ex_child \<and> parent_chain (surfaces ex_shell) 11 10 \<and>
   roots_defined ex_shell ex_layer (ss_view ex_child) \<and>
   find_focus_successor ex_shell ex_layer 11 = Some (Some 10) \<and>
   surfaces ex_shell 10 = Some ex_root \<and> parent_chain (surfaces ex_shell) 10 10 \<and>
   roots_defined ex_shell ex_layer (ss_view ex_root) \<and>
   find_focus_successor ex_shell ex_layer 10 = Some (Some 11) \<and>
   find_focus_successor (ex_shell\<lparr>surfaces := [10 \<mapsto> ex_root, 11 \<mapsto> ex_child\<lparr>ss_parent := None\<rparr>]\<rparr>)
     ex_layer 11 = Some (Some 10) \<and>
   find_focus_successor ex_shell [] 11 = Some None"
proof -
  have h: "surfaces ex_shell 11 = Some ex_child" "surfaces ex_shell 10 = Some ex_root"
    "ss_view ex_child = 11" "ss_view ex_root = 10"
    by (simp_all add: ex_shell_def ex_child_def ex_root_def)
  have r: "roots_defined ex_shell ex_layer (ss_view ex_child)"
    "roots_defined ex_shell ex_layer (ss_view ex_root)"
    using ex_layer_roots_defined h by simp_all
  from find_focus_successor_spec[OF h(1) ex_shell_chain r(1)]
  have 1: "find_focus_successor ex_shell ex_layer 11 = Some (Some 10)"
    by (simp add: spec_focus_successor_def h ex_layer_eligible ex_layer_roots)
  from find_focus_successor_spec[OF h(2) ex_shell_root_chain r(2)]
  have 2: "find_focus_successor ex_shell ex_layer 10 = Some (Some 11)"
    by (simp add: spec_focus_successor_def h ex_layer_eligible ex_layer_roots)
  let ?o = "ex_shell\<lparr>surfaces := [10 \<mapsto> ex_root, 11 \<mapsto> ex_child\<lparr>ss_parent := None\<rparr>]\<rparr>"
  let ?v = "\<lparr>wv_ref = 10, wv_is_mapped = True, wv_surface = 10\<rparr>"
  have o: "surfaces ?o 11 = Some (ex_child\<lparr>ss_parent := None\<rparr>)"
    "ss_view (ex_child\<lparr>ss_parent := None\<rparr>) = 11"
    by (simp_all add: ex_child_def)
  have oc: "parent_chain (surfaces ?o) 11 11"
    by (rule chain_root[where x = "ex_child\<lparr>ss_parent := None\<rparr>"]) simp_all
  have oc10: "parent_chain (surfaces ?o) 10 10"
    by (rule chain_root[where x = ex_root]) (simp_all add: ex_root_def)
  have oe: "filter (eligible ?o 11) ex_layer = [?v]"
    by (simp add: eligible_def ex_layer_def get_kiosk_shell_surface_def ex_shell_def no_dsurface_def)
  have ov: "view_root ?o ?v = Some 10"
    using parent_chain_root[OF oc10]
    by (simp add: view_root_def get_kiosk_shell_surface_def)
       (simp add: ex_shell_def no_dsurface_def)
  have "view = ?v" if "view \<in> set ex_layer" "eligible ?o 11 view" for view
  proof -
    from that have "view \<in> set (filter (eligible ?o 11) ex_layer)" by simp
    with oe show ?thesis by simp
  qed
  with ov have orr: "roots_defined ?o ex_layer (ss_view (ex_child\<lparr>ss_parent := None\<rparr>))"
    unfolding o(2) roots_defined_def by auto
  from find_focus_successor_spec[OF o(1) oc orr]
  have 3: "find_focus_successor ?o ex_layer 11 = Some (Some 10)"
    by (simp add: spec_focus_successor_def o(2) oe ov)
  have "roots_defined ex_shell [] (ss_view ex_child)" by (simp add: roots_defined_def)
  from find_focus_successor_spec[OF h(1) ex_shell_chain this]
  have 4: "find_focus_successor ex_shell [] 11 = Some None" by (simp add: spec_focus_successor_def)
  from 1 2 3 4 h r ex_shell_chain ex_shell_root_chain show ?thesis by simp
qed

section \<open>A surface is added\<close>


lemma foldl_activate:
  "foldl (weston_view_activate v) s seats = s\<lparr>commands := commands s @ map (View_activate v) seats\<rparr>"
  by (induction seats arbitrary: s) (simp_all add: weston_view_activate_def issue_def)

lemma commands_sized_eq:
  "commands (sized d out s) = commands s @
     (case out of None \<Rightarrow> []
      | Some output \<Rightarrow> [Set_size d (wo_width (outputs s output)) (wo_height (outputs s output))])"
  by (simp add: sized_def command_defs split: option.splits)

text \<open>
  A surface whose application identifier is not the empty string. When its side record is
  created, the handler binds it to the output chosen by
  \<^verbatim>\<open>kiosk_shell_surface_find_best_output\<close>, sets the surface fullscreen (with the size
  of that output, if there is one) and then issues \<^verbatim>\<open>weston_view_activate\<close> for the
  new view on every seat of the seat list, in order. The handler returns; when the view or
  the record cannot be created it does nothing but report the failure.
\<close>

theorem surface_added_fullscreen_activated:
  assumes "ds_app_id (dsurfaces s d) \<noteq> Some []"
  shows
   "(\<exists>best s'.
       kiosk_shell_surface_find_best_output
         (fst (kiosk_shell_surface_create d (Some view) (Some p) wl_client s)) p = Some best \<and>
       desktop_surface_added d (Some view) (Some p) wl_client s = Some s' \<and>
       map_option ss_output (surfaces s' p) = Some best \<and>
       map_option ss_parent (surfaces s' p) = Some None \<and>
       map_option ss_desktop_surface (surfaces s' p) = Some d \<and>
       ds_user_data (dsurfaces s' d) = Some p \<and>
       ds_fullscreen (dsurfaces s' d) \<and>
       commands s' = commands s @
         [Set_user_data d (Some p), Set_fullscreen d True] @
         (case best of None \<Rightarrow> []
          | Some out \<Rightarrow> [Set_size d (wo_width (outputs s out)) (wo_height (outputs s out))]) @
         map (View_activate view) (seat_list s)) \<and>
    desktop_surface_added d None new_shsurf wl_client s = Some s \<and>
    desktop_surface_added d (Some view) None wl_client s =
      Some (issue (if wl_client then Post_no_memory else Log_no_memory) s)"
proof -
  let ?x = "\<lparr>ss_desktop_surface = d, ss_view = view,
                        ss_output = None, ss_parent = None, ss_focus_count = 0,
                        ss_destroy_signal = [], ss_output_destroy_listener = False,
                        ss_parent_destroy_listener = False\<rparr>"
  let ?s1 = "weston_desktop_surface_set_user_data d (Some p)
                  (s\<lparr>surfaces := (surfaces s)(p \<mapsto> ?x)\<rparr>)"
  have c: "kiosk_shell_surface_create d (Some view) (Some p) wl_client s = (?s1, Some p)"
    by (simp add: kiosk_shell_surface_create_def)
  have x: "surfaces ?s1 p = Some ?x" by (simp add: command_defs)
  have app: "ds_app_id (dsurfaces ?s1 (ss_desktop_surface ?x)) \<noteq> Some []"
    using assms by (simp add: command_defs)
  have chain: "parent_chain (surfaces ?s1) p p"
    by (rule chain_root[where h = "surfaces ?s1" and x = ?x]) (simp_all add: x)
  from find_best_output_returns[OF x app chain]
  obtain best where best: "kiosk_shell_surface_find_best_output ?s1 p = Some best" by blast
  let ?s2 = "sized d best (weston_desktop_surface_set_fullscreen d True (rebound p ?x best ?s1))"
  have fs: "kiosk_shell_surface_set_fullscreen p None ?s1 = Some ?s2"
    using set_fullscreen_Some[OF x, of None best] best by simp
  let ?s' = "foldl (weston_view_activate view) ?s2 (seat_list ?s2)"
  have added: "desktop_surface_added d (Some view) (Some p) wl_client s = Some ?s'"
    using c fs by (simp add: desktop_surface_added_def)
  have "map_option ss_output (surfaces ?s' p) = Some best \<and>
       map_option ss_parent (surfaces ?s' p) = Some None \<and>
       map_option ss_desktop_surface (surfaces ?s' p) = Some d \<and>
       ds_user_data (dsurfaces ?s' d) = Some p \<and>
       ds_fullscreen (dsurfaces ?s' d) \<and>
       commands ?s' = commands s @
         [Set_user_data d (Some p), Set_fullscreen d True] @
         (case best of None \<Rightarrow> []
          | Some out \<Rightarrow> [Set_size d (wo_width (outputs s out)) (wo_height (outputs s out))]) @
         map (View_activate view) (seat_list s)"
    by (simp add: foldl_activate commands_sized_eq)
       (simp add: command_defs split: option.splits)
  with best added c have 1: "\<exists>best s'.
       kiosk_shell_surface_find_best_output
         (fst (kiosk_shell_surface_create d (Some view) (Some p) wl_client s)) p = Some best \<and>
       desktop_surface_added d (Some view) (Some p) wl_client s = Some s' \<and>
       map_option ss_output (surfaces s' p) = Some best \<and>
       map_option ss_parent (surfaces s' p) = Some None \<and>
       map_option ss_desktop_surface (surfaces s' p) = Some d \<and>
       ds_user_data (dsurfaces s' d) = Some p \<and>
       ds_fullscreen (dsurfaces s' d) \<and>
       commands s' = commands s @
         [Set_user_data d (Some p), Set_fullscreen d True] @
         (case best of None \<Rightarrow> []
          | Some out \<Rightarrow> [Set_size d (wo_width (outputs s out)) (wo_height (outputs s out))]) @
         map (View_activate view) (seat_list s)"
    by (intro exI[of _ best] exI[of _ ?s']) simp
  have 2: "desktop_surface_added d None new_shsurf wl_client s = Some s"
    "desktop_surface_added d (Some view) None wl_client s =
      Some (issue (if wl_client then Post_no_memory else Log_no_memory) s)"
    by (simp_all add: desktop_surface_added_def kiosk_shell_surface_create_def)
  from 1 2 show ?thesis by blast
qed


lemma ex_added_best:
  "kiosk_shell_surface_find_best_output
     (fst (kiosk_shell_surface_create 12 (Some 12) (Some 12) True ex_shell)) 12 = Some (Some 2)"
proof -
  have m: "has_app_id_loop ''vlc,kiosk-app'' ''kiosk-app'' 0 = Some True" by code_simp
  show ?thesis
    using m
    by (simp add: kiosk_shell_surface_find_best_output_def kiosk_shell_surface_create_def
        command_defs ex_shell_def no_dsurface_def kiosk_shell_output_has_app_id_def)
qed

theorem surface_added_fullscreen_activated_witness:
  "ds_app_id (dsurfaces ex_shell 12) \<noteq> Some [] \<and>
   issued (desktop_surface_added 12 (Some 12) (Some 12) True ex_shell) =
     Some [Set_user_data 12 (Some 12), Set_fullscreen 12 True, Set_size 12 1280 720,
           View_activate 12 0, View_activate 12 1] \<and>
   window_state (desktop_surface_added 12 (Some 12) (Some 12) True ex_shell) 12 =
     Some (None, Fullscreen)"
proof -
  have h: "ds_app_id (dsurfaces ex_shell 12) \<noteq> Some []"
    by (simp add: ex_shell_def no_dsurface_def)
  from surface_added_fullscreen_activated[OF h, of 12 12 True]
  obtain best s' where r:
    "kiosk_shell_surface_find_best_output
         (fst (kiosk_shell_surface_create 12 (Some 12) (Some 12) True ex_shell)) 12 = Some best"
    "desktop_surface_added 12 (Some 12) (Some 12) True ex_shell = Some s'"
    "map_option ss_output (surfaces s' 12) = Some best"
    "map_option ss_parent (surfaces s' 12) = Some None"
    "map_option ss_desktop_surface (surfaces s' 12) = Some 12"
    "ds_user_data (dsurfaces s' 12) = Some 12"
    "ds_fullscreen (dsurfaces s' 12)"
    "commands s' = commands ex_shell @
         [Set_user_data 12 (Some 12), Set_fullscreen 12 True] @
         (case best of None \<Rightarrow> []
          | Some out \<Rightarrow> [Set_size 12 (wo_width (outputs ex_shell out)) (wo_height (outputs ex_shell out))]) @
         map (View_activate 12) (seat_list ex_shell)"
    by blast
  from r(1) ex_added_best have best: "best = Some 2" by simp
  have e: "commands ex_shell = []" "seat_list ex_shell = [0, 1]"
    "wo_width (outputs ex_shell 2) = 1280" "wo_height (outputs ex_shell 2) = 720"
    by (simp_all add: ex_shell_def)
  from r(4,5) obtain x where x: "surfaces s' 12 = Some x" "ss_parent x = None"
    "ss_desktop_surface x = 12" by auto
  show ?thesis
    using h r(2,7,8) best e x
    by (simp add: issued_def window_state_def placement_of_def)
qed

text \<open>
  Claim C10, at a surface whose application identifier is the empty string. The side
  record of desktop surface 13 of \<open>ex_anonymous\<close> is created, but the selection of its
  output, which \<^verbatim>\<open>kiosk_shell_surface_set_fullscreen\<close> starts with, reads past the end
  of the affinity list \<open>vlc,kiosk-app\<close> of the second registered output: the handler has
  no result, where the surface is to be made fullscreen on the focused output and its view
  activated on seats 0 and 1.
\<close>

theorem surface_added_empty_app_id:
  "ds_app_id (dsurfaces ex_anonymous 13) = Some '''' \<and>
   focused_output ex_anonymous = Some 2 \<and>
   seat_list ex_anonymous = [0, 1] \<and>
   snd (kiosk_shell_surface_create 13 (Some 13) (Some 13) True ex_anonymous) = Some 13 \<and>
   kiosk_shell_surface_find_best_output
     (fst (kiosk_shell_surface_create 13 (Some 13) (Some 13) True ex_anonymous)) 13 = None \<and>
   desktop_surface_added 13 (Some 13) (Some 13) True ex_anonymous = None"
proof -
  let ?s1 = "fst (kiosk_shell_surface_create 13 (Some 13) (Some 13) True ex_anonymous)"
  have a: "ds_app_id (dsurfaces ex_anonymous 13) = Some ''''"
    "focused_output ex_anonymous = Some 2" "seat_list ex_anonymous = [0, 1]"
    by (simp_all add: ex_anonymous_def ex_shell_def no_dsurface_def)
  have c: "snd (kiosk_shell_surface_create 13 (Some 13) (Some 13) True ex_anonymous) = Some 13"
    by (simp add: kiosk_shell_surface_create_def)
  have b: "kiosk_shell_surface_find_best_output ?s1 13 = None"
    using has_app_id_empty
    by (simp add: kiosk_shell_surface_find_best_output_def kiosk_shell_surface_create_def
        command_defs ex_anonymous_def ex_shell_def no_dsurface_def
        kiosk_shell_output_has_app_id_def)
  have d: "desktop_surface_added 13 (Some 13) (Some 13) True ex_anonymous = None"
    using b
    by (simp add: desktop_surface_added_def kiosk_shell_surface_set_fullscreen_def
        kiosk_shell_surface_create_def)
  from a b c d show ?thesis by simp
qed

section \<open>Destroying a side record\<close>


lemma identity_frame_refl [simp]: "identity_frame s s"
  by (simp add: identity_frame_def)

lemma identity_frame_trans:
  assumes "identity_frame s t" and "identity_frame t u"
  shows "identity_frame s u"
proof -
  from assms obtain cs cs' where "commands t = commands s @ cs" "commands u = commands t @ cs'"
    by (auto simp: identity_frame_def)
  then have "commands u = commands s @ (cs @ cs')" by simp
  then have "\<exists>cs. commands u = commands s @ cs" by blast
  with assms show ?thesis by (simp add: identity_frame_def)
qed

lemma placement_identity_frame: "placement_frame p s s' \<Longrightarrow> identity_frame s s'"
  by (simp add: placement_frame_def identity_frame_def)

lemma notify_parent_destroy_frame:
  assumes "kiosk_shell_surface_notify_parent_destroy l t = Some t'"
  shows "identity_frame t t'"
proof -
  from assms have "\<exists>x gp. surfaces t l = Some x \<and>
      kiosk_shell_surface_set_parent l gp t = Some t'"
    by (auto simp: kiosk_shell_surface_notify_parent_destroy_def split: bind_splits)
  then obtain x gp where x: "surfaces t l = Some x"
    and sp: "kiosk_shell_surface_set_parent l gp t = Some t'"
    by blast
  from set_parent_result(1)[OF sp x] show ?thesis
    by (rule placement_identity_frame)
qed

lemma emit_frame:
  assumes "wl_signal_emit ls t = Some t'"
  shows "identity_frame t t' \<and> length (emit_states ls t) = length ls \<and>
         (\<forall>u\<in>set (emit_states ls t). identity_frame t u)"
  using assms
proof (induction ls arbitrary: t)
  case Nil
  then show ?case by simp
next
  case (Cons l ls)
  then obtain t1 where t1: "kiosk_shell_surface_notify_parent_destroy l t = Some t1"
    and rest: "wl_signal_emit ls t1 = Some t'"
    by (auto split: option.splits)
  note f1 = notify_parent_destroy_frame[OF t1]
  from Cons.IH[OF rest] have ih: "identity_frame t1 t'"
    "length (emit_states ls t1) = length ls"
    "\<And>u. u \<in> set (emit_states ls t1) \<Longrightarrow> identity_frame t1 u"
    by auto
  from f1 ih(1) have "identity_frame t t'" by (rule identity_frame_trans)
  moreover have "identity_frame t u" if "u \<in> set (emit_states ls t1)" for u
    using f1 ih(3)[OF that] by (rule identity_frame_trans)
  ultimately show ?case
    using t1 ih(2) by auto
qed

lemma upd_surface_same:
  "upd_surface q f s = Some s' \<Longrightarrow> commands s' = commands s \<and> dsurfaces s' = dsurfaces s"
  by (auto simp: upd_surface_def split: option.splits)

lemma parent_listener_remove_same:
  "parent_listener_remove p s = Some s' \<Longrightarrow>
   commands s' = commands s \<and> dsurfaces s' = dsurfaces s"
  by (auto simp: parent_listener_remove_def split: bind_splits dest!: upd_surface_same)

lemma destroy_teardown_result:
  assumes "destroy_teardown p s = Some s'" and "surfaces s p = Some x"
  shows "commands s' = commands s @
           [Set_user_data (ss_desktop_surface x) None, Unlink_view (ss_view x),
            View_destroy (ss_view x)]"
    and "ds_user_data (dsurfaces s' (ss_desktop_surface x)) = None"
    and "surfaces s' p = None"
proof -
  let ?s2 = "issue (View_destroy (ss_view x)) (issue (Unlink_view (ss_view x))
      (weston_desktop_surface_set_user_data (ss_desktop_surface x) None s))"
  from assms obtain s3 s4 where
    s3: "(if ss_output_destroy_listener x
          then upd_surface p (\<lambda>y. y\<lparr>ss_output_destroy_listener := False\<rparr>) ?s2
          else Some ?s2) = Some s3"
    and s4: "(if ss_parent_destroy_listener x
              then do {
                t \<leftarrow> parent_listener_remove p s3;
                upd_surface p (\<lambda>y. y\<lparr>ss_parent := None\<rparr>) t
              }
              else Some s3) = Some s4"
    and s': "s' = s4\<lparr>surfaces := (surfaces s4)(p := None)\<rparr>"
    by (auto simp: destroy_teardown_def split: bind_splits)
  from s3 have e3: "commands s3 = commands ?s2" "dsurfaces s3 = dsurfaces ?s2"
    by (auto split: if_splits dest!: upd_surface_same)
  from s4 have e4: "commands s4 = commands s3" "dsurfaces s4 = dsurfaces s3"
    by (auto split: if_splits bind_splits dest!: upd_surface_same parent_listener_remove_same)
  from s' e3 e4 show "commands s' = commands s @
           [Set_user_data (ss_desktop_surface x) None, Unlink_view (ss_view x),
            View_destroy (ss_view x)]"
    and "ds_user_data (dsurfaces s' (ss_desktop_surface x)) = None"
    and "surfaces s' p = None"
    by (simp_all add: command_defs)
qed

text \<open>
  Claim C8, as the code has it. \<^verbatim>\<open>kiosk_shell_surface_destroy\<close> emits the destroy
  signal first: every listener finds in the association slot what was there before the
  call, and the side record is still in place. The association is set to \<^verbatim>\<open>NULL\<close>
  right after the emission, before the view is unlinked and destroyed and the record is
  freed.
\<close>

theorem destroy_emits_before_unlinking:
  assumes "surfaces s p = Some x"
      and "kiosk_shell_surface_destroy p s = Some s'"
  shows "association_seen p s =
           replicate (length (ss_destroy_signal x))
             (ds_user_data (dsurfaces s (ss_desktop_surface x))) \<and>
         (\<exists>cs. commands s' = commands s @ Destroy_signal_emit p # cs @
            [Set_user_data (ss_desktop_surface x) None, Unlink_view (ss_view x),
             View_destroy (ss_view x)]) \<and>
         ds_user_data (dsurfaces s' (ss_desktop_surface x)) = None \<and>
         surfaces s' p = None"
proof -
  let ?d = "ss_desktop_surface x"
  let ?s0 = "issue (Destroy_signal_emit p) s"
  from assms obtain s1 where
    emit: "wl_signal_emit (ss_destroy_signal x) ?s0 = Some s1"
    and tear: "destroy_teardown p s1 = Some s'"
    by (auto simp: kiosk_shell_surface_destroy_def destroy_emit_def split: bind_splits if_splits)
  from emit_frame[OF emit] have f: "identity_frame ?s0 s1"
    and len: "length (emit_states (ss_destroy_signal x) ?s0) = length (ss_destroy_signal x)"
    and each: "\<And>u. u \<in> set (emit_states (ss_destroy_signal x) ?s0) \<Longrightarrow> identity_frame ?s0 u"
    by auto
  have "ds_user_data (dsurfaces u ?d) = ds_user_data (dsurfaces s ?d)"
    if "u \<in> set (emit_states (ss_destroy_signal x) ?s0)" for u
    using each[OF that] by (simp add: identity_frame_def issue_def)
  then have "map (\<lambda>t. ds_user_data (dsurfaces t ?d)) (emit_states (ss_destroy_signal x) ?s0) =
      map (\<lambda>t. ds_user_data (dsurfaces s ?d)) (emit_states (ss_destroy_signal x) ?s0)"
    by (intro map_cong) simp_all
  with len assms(1) have seen: "association_seen p s =
      replicate (length (ss_destroy_signal x)) (ds_user_data (dsurfaces s ?d))"
    by (simp add: association_seen_def map_replicate_const)
  from f assms(1) obtain x1 where x1: "surfaces s1 p = Some x1"
    "ss_desktop_surface x1 = ?d" "ss_view x1 = ss_view x"
    by (cases "surfaces s1 p") (auto simp: identity_frame_def issue_def dest!: spec[of _ p])
  from f obtain cs where cs: "commands s1 = commands s @ Destroy_signal_emit p # cs"
    by (auto simp: identity_frame_def issue_def)
  from destroy_teardown_result[OF tear x1(1)] x1 cs
  have "commands s' = commands s @ Destroy_signal_emit p # cs @
            [Set_user_data ?d None, Unlink_view (ss_view x), View_destroy (ss_view x)]"
    and "ds_user_data (dsurfaces s' ?d) = None" and "surfaces s' p = None"
    by simp_all
  with seen show ?thesis by blast
qed


lemma ex_destroy_commands:
  "issued (kiosk_shell_surface_destroy 10 ex_shell) =
     Some [Destroy_signal_emit 10, Set_fullscreen 11 True, Set_size 11 1280 720,
           Set_user_data 10 None, Unlink_view 10, View_destroy 10]"
proof -
  have d: "has_app_id_loop ''vlc,kiosk-app'' ''dialog'' 0 = Some False" by code_simp
  show ?thesis
    using d
    by (simp add: issued_def kiosk_shell_surface_destroy_def destroy_emit_def destroy_teardown_def
        kiosk_shell_surface_notify_parent_destroy_def kiosk_shell_surface_set_parent_def
        parent_listener_remove_def upd_surface_def kiosk_shell_surface_set_fullscreen_def
        kiosk_shell_surface_set_output_def size_to_output_def
        kiosk_shell_surface_find_best_output_def kiosk_shell_output_has_app_id_def
        kiosk_shell_surface_get_parent_root.simps
        command_defs ex_shell_def ex_root_def ex_child_def no_dsurface_def Let_def)
qed

lemma ex_destroy_seen: "association_seen 10 ex_shell = [Some 10]"
proof -
  have d: "has_app_id_loop ''vlc,kiosk-app'' ''dialog'' 0 = Some False" by code_simp
  show ?thesis
    using d
    by (simp add: association_seen_def
        kiosk_shell_surface_notify_parent_destroy_def kiosk_shell_surface_set_parent_def
        parent_listener_remove_def upd_surface_def kiosk_shell_surface_set_fullscreen_def
        kiosk_shell_surface_set_output_def size_to_output_def
        kiosk_shell_surface_find_best_output_def kiosk_shell_output_has_app_id_def
        kiosk_shell_surface_get_parent_root.simps
        command_defs ex_shell_def ex_root_def ex_child_def no_dsurface_def Let_def)
qed

theorem destroy_emits_before_unlinking_witness:
  "surfaces ex_shell 10 = Some ex_root \<and>
   kiosk_shell_surface_destroy 10 ex_shell \<noteq> None \<and>
   ds_user_data (dsurfaces ex_shell 10) = Some 10 \<and>
   association_seen 10 ex_shell = [Some 10] \<and>
   ds_user_data (dsurfaces (the (kiosk_shell_surface_destroy 10 ex_shell)) 10) = None \<and>
   surfaces (the (kiosk_shell_surface_destroy 10 ex_shell)) 10 = None"
proof -
  have h: "surfaces ex_shell 10 = Some ex_root" "ss_desktop_surface ex_root = 10"
    "ss_destroy_signal ex_root = [11]" "ds_user_data (dsurfaces ex_shell 10) = Some 10"
    by (simp_all add: ex_shell_def ex_root_def no_dsurface_def)
  from ex_destroy_commands have r: "kiosk_shell_surface_destroy 10 ex_shell \<noteq> None"
    by (auto simp: issued_def)
  then have "kiosk_shell_surface_destroy 10 ex_shell =
      Some (the (kiosk_shell_surface_destroy 10 ex_shell))" by simp
  from destroy_emits_before_unlinking[OF h(1) this] h r show ?thesis by simp
qed

theorem destroy_association_counterexample:
  "association_seen 10 ex_shell = [Some 10] \<and>
   issued (kiosk_shell_surface_destroy 10 ex_shell) =
     Some [Destroy_signal_emit 10, Set_fullscreen 11 True, Set_size 11 1280 720,
           Set_user_data 10 None, Unlink_view 10, View_destroy 10]"
  using ex_destroy_seen ex_destroy_commands by simp

section \<open>The fullscreen invariant over the operations\<close>


lemma invariant_kept:
  assumes inv: "child_not_fullscreen s" "ds_unshared s"
    and old: "\<And>q y'. surfaces s' q = Some y' \<Longrightarrow>
        \<exists>y. surfaces s q = Some y \<and> ss_desktop_surface y = ss_desktop_surface y' \<and>
            ss_parent y = ss_parent y'"
    and flags: "\<And>e. ds_fullscreen (dsurfaces s' e) = ds_fullscreen (dsurfaces s e)"
  shows "child_not_fullscreen s' \<and> ds_unshared s'"
proof
  show "ds_unshared s'"
    unfolding ds_unshared_def
  proof (intro allI impI)
    fix q r y z
    assume a: "surfaces s' q = Some y \<and> surfaces s' r = Some z \<and>
      ss_desktop_surface y = ss_desktop_surface z"
    with old[of q y] old[of r z] inv(2) show "q = r"
      unfolding ds_unshared_def by metis
  qed
  show "child_not_fullscreen s'"
    unfolding child_not_fullscreen_def
  proof (intro allI impI)
    fix q y'
    assume a: "surfaces s' q = Some y' \<and> ss_parent y' \<noteq> None"
    with old[of q y'] obtain y where y: "surfaces s q = Some y"
      "ss_desktop_surface y = ss_desktop_surface y'" "ss_parent y \<noteq> None" by auto
    from inv(1) y(1,3) have "placement_of s y \<noteq> Fullscreen"
      unfolding child_not_fullscreen_def by blast
    then have "\<not> ds_fullscreen (dsurfaces s (ss_desktop_surface y))"
      by (simp add: placement_fullscreen_iff)
    with y(2) flags show "placement_of s' y' \<noteq> Fullscreen"
      by (simp add: placement_fullscreen_iff)
  qed
qed

lemma focus_leave_links:
  assumes "focus_leave fs s = Some s1"
  shows "map_option ss_parent (surfaces s1 q) = map_option ss_parent (surfaces s q)"
    and "map_option ss_desktop_surface (surfaces s1 q) = map_option ss_desktop_surface (surfaces s q)"
    and "ds_fullscreen (dsurfaces s1 e) = ds_fullscreen (dsurfaces s e)"
  using assms
  by (auto simp: focus_leave_def Let_def command_defs split: option.splits if_splits)

lemma focus_enter_links:
  assumes "focus_enter fs s = Some s1"
  shows "map_option ss_parent (surfaces s1 q) = map_option ss_parent (surfaces s q)"
    and "map_option ss_desktop_surface (surfaces s1 q) = map_option ss_desktop_surface (surfaces s q)"
    and "ds_fullscreen (dsurfaces s1 e) = ds_fullscreen (dsurfaces s e)"
  using assms
  by (auto simp: focus_enter_def Let_def command_defs split: option.splits if_splits)

lemma links_old:
  assumes "map_option ss_parent (surfaces s' q) = map_option ss_parent (surfaces s q)"
      and "map_option ss_desktop_surface (surfaces s' q) = map_option ss_desktop_surface (surfaces s q)"
      and "surfaces s' q = Some y'"
  shows "\<exists>y. surfaces s q = Some y \<and> ss_desktop_surface y = ss_desktop_surface y' \<and>
            ss_parent y = ss_parent y'"
  using assms by (cases "surfaces s q") auto

lemma keyboard_focus_invariant:
  assumes "child_not_fullscreen s" "ds_unshared s"
      and "kiosk_shell_seat_handle_keyboard_focus seat focus s = Some s'"
  shows "child_not_fullscreen s' \<and> ds_unshared s'"
proof -
  from assms(3) obtain shseat s1 where
    s1: "focus_leave (seat_focused_surface shseat) s = Some s1"
    and s': "focus_enter (map_option (main_surface s1) focus)
       (s1\<lparr>shseats := (shseats s1)(seat \<mapsto>
          shseat\<lparr>seat_focused_surface := map_option (main_surface s1) focus\<rparr>)\<rparr>) = Some s'"
    by (auto simp: kiosk_shell_seat_handle_keyboard_focus_def Let_def split: option.splits bind_splits)
  note l = focus_leave_links[OF s1] and e = focus_enter_links[OF s']
  show ?thesis
  proof (rule invariant_kept[OF assms(1,2)])
    fix q y' assume "surfaces s' q = Some y'"
    then show "\<exists>y. surfaces s q = Some y \<and> ss_desktop_surface y = ss_desktop_surface y' \<and>
            ss_parent y = ss_parent y'"
      using e(1,2)[of q] l(1,2)[of q] by (intro links_old) simp_all
  next
    fix e' show "ds_fullscreen (dsurfaces s' e') = ds_fullscreen (dsurfaces s e')"
      using e(3)[of e'] l(3)[of e'] by simp
  qed
qed

lemma set_parent_invariant:
  assumes "child_not_fullscreen s" "ds_unshared s"
      and "kiosk_shell_surface_set_parent q parent s = Some s'"
  shows "child_not_fullscreen s' \<and> ds_unshared s'"
proof -
  from assms(3) obtain y where y: "surfaces s q = Some y"
    by (cases "surfaces s q") (auto simp: kiosk_shell_surface_set_parent_def)
  from set_parent_result[OF assms(3) y] show ?thesis
    by (intro invariant_step[OF assms(1,2) y]) auto
qed

lemma emit_invariant:
  "child_not_fullscreen t \<Longrightarrow> ds_unshared t \<Longrightarrow> wl_signal_emit ls t = Some t' \<Longrightarrow>
   child_not_fullscreen t' \<and> ds_unshared t'"
proof (induction ls arbitrary: t)
  case Nil
  then show ?case by simp
next
  case (Cons l ls)
  from Cons.prems(3) obtain t1 where t1: "kiosk_shell_surface_notify_parent_destroy l t = Some t1"
    and rest: "wl_signal_emit ls t1 = Some t'"
    by (auto split: option.splits)
  from t1 obtain gp where "kiosk_shell_surface_set_parent l gp t = Some t1"
    by (auto simp: kiosk_shell_surface_notify_parent_destroy_def split: bind_splits)
  from set_parent_invariant[OF Cons.prems(1,2) this]
  have "child_not_fullscreen t1" "ds_unshared t1" by simp_all
  from Cons.IH[OF this rest] show ?case .
qed

lemma parent_listener_remove_at:
  assumes "parent_listener_remove p s = Some s'"
  shows "map_option ss_parent (surfaces s' q) = map_option ss_parent (surfaces s q)"
    and "map_option ss_desktop_surface (surfaces s' q) = map_option ss_desktop_surface (surfaces s q)"
proof -
  from assms obtain x r s1 where
    s1: "upd_surface r (\<lambda>y. y\<lparr>ss_destroy_signal := remove1 p (ss_destroy_signal y)\<rparr>) s = Some s1"
    and s': "upd_surface p (\<lambda>y. y\<lparr>ss_parent_destroy_listener := False\<rparr>) s1 = Some s'"
    by (auto simp: parent_listener_remove_def split: bind_splits)
  from upd_surface_at[OF s1, of q] upd_surface_at[OF s', of q]
  show "map_option ss_parent (surfaces s' q) = map_option ss_parent (surfaces s q)"
    and "map_option ss_desktop_surface (surfaces s' q) = map_option ss_desktop_surface (surfaces s q)"
    by (auto simp: option.map_comp comp_def split: if_splits)
qed

lemma destroy_teardown_links:
  assumes "destroy_teardown p s = Some s'"
  shows "surfaces s' q = Some y' \<Longrightarrow>
           \<exists>y. surfaces s q = Some y \<and> ss_desktop_surface y = ss_desktop_surface y' \<and>
            ss_parent y = ss_parent y'"
    and "ds_fullscreen (dsurfaces s' e) = ds_fullscreen (dsurfaces s e)"
proof -
  from assms(1) obtain x where x: "surfaces s p = Some x"
    by (cases "surfaces s p") (auto simp: destroy_teardown_def)
  let ?s2 = "issue (View_destroy (ss_view x)) (issue (Unlink_view (ss_view x))
      (weston_desktop_surface_set_user_data (ss_desktop_surface x) None s))"
  from assms(1) x obtain s3 s4 where
    s3: "(if ss_output_destroy_listener x
          then upd_surface p (\<lambda>y. y\<lparr>ss_output_destroy_listener := False\<rparr>) ?s2
          else Some ?s2) = Some s3"
    and s4: "(if ss_parent_destroy_listener x
              then do {
                t \<leftarrow> parent_listener_remove p s3;
                upd_surface p (\<lambda>y. y\<lparr>ss_parent := None\<rparr>) t
              }
              else Some s3) = Some s4"
    and s': "s' = s4\<lparr>surfaces := (surfaces s4)(p := None)\<rparr>"
    by (auto simp: destroy_teardown_def split: bind_splits)
  show "\<exists>y. surfaces s q = Some y \<and> ss_desktop_surface y = ss_desktop_surface y' \<and>
            ss_parent y = ss_parent y'" if a: "surfaces s' q = Some y'"
  proof -
  from a s' have qp: "q \<noteq> p" and y4: "surfaces s4 q = Some y'"
    by (auto split: if_splits)
  have l3: "surfaces s3 q = surfaces s q"
    using s3 qp by (auto simp: upd_surface_def command_defs split: if_splits option.splits)
  have l4: "map_option ss_parent (surfaces s4 q) = map_option ss_parent (surfaces s3 q)"
    "map_option ss_desktop_surface (surfaces s4 q) = map_option ss_desktop_surface (surfaces s3 q)"
  proof -
    show "map_option ss_parent (surfaces s4 q) = map_option ss_parent (surfaces s3 q)"
    proof (cases "ss_parent_destroy_listener x")
      case True
      with s4 obtain t where t: "parent_listener_remove p s3 = Some t"
        and u: "upd_surface p (\<lambda>y. y\<lparr>ss_parent := None\<rparr>) t = Some s4"
        by (auto split: bind_splits)
      from upd_surface_at[OF u, of q] qp parent_listener_remove_at(1)[OF t, of q]
      show ?thesis by simp
    next
      case False
      with s4 show ?thesis by simp
    qed
    show "map_option ss_desktop_surface (surfaces s4 q) = map_option ss_desktop_surface (surfaces s3 q)"
    proof (cases "ss_parent_destroy_listener x")
      case True
      with s4 obtain t where t: "parent_listener_remove p s3 = Some t"
        and u: "upd_surface p (\<lambda>y. y\<lparr>ss_parent := None\<rparr>) t = Some s4"
        by (auto split: bind_splits)
      from upd_surface_at[OF u, of q] qp parent_listener_remove_at(2)[OF t, of q]
      show ?thesis by simp
    next
      case False
      with s4 show ?thesis by simp
    qed
  qed
  from l4 l3 y4 show ?thesis
    by (intro links_old) simp_all
  qed
  from s3 have d3: "dsurfaces s3 = dsurfaces ?s2"
    by (auto split: if_splits dest!: upd_surface_same)
  from s4 have d4: "dsurfaces s4 = dsurfaces s3"
    by (auto split: if_splits bind_splits dest!: upd_surface_same parent_listener_remove_same)
  from s' d3 d4 show "ds_fullscreen (dsurfaces s' e) = ds_fullscreen (dsurfaces s e)"
    by (simp add: command_defs)
qed

lemma destroy_invariant:
  assumes "child_not_fullscreen s" "ds_unshared s"
      and "kiosk_shell_surface_destroy p s = Some s'"
  shows "child_not_fullscreen s' \<and> ds_unshared s'"
proof -
  from assms(3) have "\<exists>ls s1.
      wl_signal_emit ls (issue (Destroy_signal_emit p) s) = Some s1 \<and>
      destroy_teardown p s1 = Some s'"
    by (auto simp: kiosk_shell_surface_destroy_def destroy_emit_def
        split: bind_splits if_splits option.splits)
  then obtain ls s1 where
    emit: "wl_signal_emit ls (issue (Destroy_signal_emit p) s) = Some s1"
    and tear: "destroy_teardown p s1 = Some s'"
    by blast
  have "child_not_fullscreen (issue (Destroy_signal_emit p) s) \<and>
    ds_unshared (issue (Destroy_signal_emit p) s)"
    by (rule invariant_kept[OF assms(1,2)]) (simp_all add: issue_def)
  then have "child_not_fullscreen (issue (Destroy_signal_emit p) s)"
    "ds_unshared (issue (Destroy_signal_emit p) s)" by simp_all
  from emit_invariant[OF this emit] have i1: "child_not_fullscreen s1" "ds_unshared s1"
    by simp_all
  show ?thesis
    by (rule invariant_kept[OF i1])
       (rule destroy_teardown_links(1)[OF tear], assumption, rule destroy_teardown_links(2)[OF tear])
qed

lemma surface_added_invariant:
  assumes "child_not_fullscreen s" "ds_unshared s"
      and fresh: "\<forall>q y. surfaces s q = Some y \<longrightarrow> ss_desktop_surface y \<noteq> d"
      and "desktop_surface_added d new_view new_shsurf wl_client s = Some s'"
  shows "child_not_fullscreen s' \<and> ds_unshared s'"
proof (cases "new_view = None \<or> new_shsurf = None")
  case True
  with assms(4) have "surfaces s' = surfaces s" "dsurfaces s' = dsurfaces s"
    by (auto simp: desktop_surface_added_def kiosk_shell_surface_create_def issue_def
        split: option.splits)
  then show ?thesis
    by (intro invariant_kept[OF assms(1,2)]) simp_all
next
  case False
  then obtain view p where v: "new_view = Some view" "new_shsurf = Some p" by auto
  let ?x = "\<lparr>ss_desktop_surface = d, ss_view = view,
                        ss_output = None, ss_parent = None, ss_focus_count = 0,
                        ss_destroy_signal = [], ss_output_destroy_listener = False,
                        ss_parent_destroy_listener = False\<rparr>"
  let ?s1 = "weston_desktop_surface_set_user_data d (Some p)
                  (s\<lparr>surfaces := (surfaces s)(p \<mapsto> ?x)\<rparr>)"
  have c: "kiosk_shell_surface_create d new_view new_shsurf wl_client s = (?s1, Some p)"
    using v by (simp add: kiosk_shell_surface_create_def)
  have x: "surfaces ?s1 p = Some ?x" by (simp add: command_defs)
  have i1: "child_not_fullscreen ?s1" "ds_unshared ?s1"
    using assms(1,2) fresh
    by (auto simp: child_not_fullscreen_def ds_unshared_def placement_of_def command_defs
        split: if_splits)
  from assms(4) c have "\<exists>s2 v2.
      kiosk_shell_surface_set_fullscreen p None ?s1 = Some s2 \<and>
      s' = foldl (weston_view_activate v2) s2 (seat_list s2)"
    by (auto simp: desktop_surface_added_def split: bind_splits)
  then obtain s2 v2 where
    fs: "kiosk_shell_surface_set_fullscreen p None ?s1 = Some s2"
    and s': "s' = foldl (weston_view_activate v2) s2 (seat_list s2)"
    by blast
  from set_fullscreen_result[OF fs x] have "child_not_fullscreen s2 \<and> ds_unshared s2"
    by (intro invariant_step[OF i1 x]) auto
  then have i2: "child_not_fullscreen s2" "ds_unshared s2" by simp_all
  show ?thesis
    by (rule invariant_kept[OF i2]) (simp_all add: s' foldl_activate)
qed


lemma requests_invariant:
  assumes "child_not_fullscreen s" and "ds_unshared s"
  shows "desktop_surface_maximized_requested d maximized s = Some s' \<Longrightarrow>
           child_not_fullscreen s' \<and> ds_unshared s'"
    and "desktop_surface_fullscreen_requested d fullscreen out s = Some s' \<Longrightarrow>
         \<not> (fullscreen \<and> (\<exists>p x. ds_user_data (dsurfaces s d) = Some p \<and>
               surfaces s p = Some x \<and> ss_parent x \<noteq> None)) \<Longrightarrow>
           child_not_fullscreen s' \<and> ds_unshared s'"
proof -
  show "child_not_fullscreen s' \<and> ds_unshared s'"
    if a: "desktop_surface_maximized_requested d maximized s = Some s'"
  proof -
    from a obtain q y where q: "ds_user_data (dsurfaces s d) = Some q" "surfaces s q = Some y"
      by (auto simp: desktop_surface_maximized_requested_def split: option.splits)
    show ?thesis
    proof (cases "ss_parent y")
      case None
      with a q have fs: "kiosk_shell_surface_set_fullscreen q None s = Some s'"
        by (simp add: desktop_surface_maximized_requested_def)
      from set_fullscreen_result[OF fs q(2)] None show ?thesis
        by (intro invariant_step[OF assms q(2)]) auto
    next
      case (Some r)
      from assms(1) q(2) Some have nf: "\<not> ds_fullscreen (dsurfaces s (ss_desktop_surface y))"
        by (auto simp: child_not_fullscreen_def placement_fullscreen_iff)
      show ?thesis
      proof (cases maximized)
        case True
        with a q Some have m: "kiosk_shell_surface_set_maximized q s = Some s'"
          by (simp add: desktop_surface_maximized_requested_def)
        from set_maximized_result[OF m q(2)] nf show ?thesis
          by (intro invariant_step[OF assms q(2)]) auto
      next
        case False
        with a q Some have n: "kiosk_shell_surface_set_normal q s = Some s'"
          by (simp add: desktop_surface_maximized_requested_def)
        from set_normal_result[OF n q(2)] show ?thesis
          by (intro invariant_step[OF assms q(2)]) auto
      qed
    qed
  qed
  show "child_not_fullscreen s' \<and> ds_unshared s'"
    if a: "desktop_surface_fullscreen_requested d fullscreen out s = Some s'"
      and b: "\<not> (fullscreen \<and> (\<exists>p x. ds_user_data (dsurfaces s d) = Some p \<and>
               surfaces s p = Some x \<and> ss_parent x \<noteq> None))"
  proof -
    from a obtain q y where q: "ds_user_data (dsurfaces s d) = Some q" "surfaces s q = Some y"
      by (auto simp: desktop_surface_fullscreen_requested_def split: option.splits)
    show ?thesis
    proof (cases "ss_parent y")
      case None
      with a q have fs: "kiosk_shell_surface_set_fullscreen q out s = Some s'"
        by (simp add: desktop_surface_fullscreen_requested_def)
      from set_fullscreen_result[OF fs q(2)] None show ?thesis
        by (intro invariant_step[OF assms q(2)]) auto
    next
      case (Some r)
      with b q have "\<not> fullscreen" by auto
      with a q Some have n: "kiosk_shell_surface_set_normal q s = Some s'"
        by (simp add: desktop_surface_fullscreen_requested_def)
      from set_normal_result[OF n q(2)] show ?thesis
        by (intro invariant_step[OF assms q(2)]) auto
    qed
  qed
qed

text \<open>
  Claim C3, as the code has it. In a state where each desktop surface has one side
  record, that no window with a parent is fullscreen is kept when a surface is added,
  by \<^verbatim>\<open>set_parent\<close>, by maximize requests, by keyboard-focus events, by the destruction
  of a window, and by every fullscreen request but one with argument true for a window
  that has a parent: that request makes the window fullscreen.
\<close>

theorem child_not_fullscreen_preserved:
  assumes "child_not_fullscreen s" and "ds_unshared s"
  shows
   "(desktop_surface_set_parent d parent s = Some s' \<longrightarrow>
       child_not_fullscreen s' \<and> ds_unshared s') \<and>
    (desktop_surface_maximized_requested d maximized s = Some s' \<longrightarrow>
       child_not_fullscreen s' \<and> ds_unshared s') \<and>
    (desktop_surface_fullscreen_requested d fullscreen out s = Some s' \<and>
     \<not> (fullscreen \<and> (\<exists>p x. ds_user_data (dsurfaces s d) = Some p \<and>
               surfaces s p = Some x \<and> ss_parent x \<noteq> None)) \<longrightarrow>
       child_not_fullscreen s' \<and> ds_unshared s') \<and>
    (kiosk_shell_seat_handle_keyboard_focus seat focus s = Some s' \<longrightarrow>
       child_not_fullscreen s' \<and> ds_unshared s') \<and>
    (kiosk_shell_surface_destroy p s = Some s' \<longrightarrow>
       child_not_fullscreen s' \<and> ds_unshared s') \<and>
    ((\<forall>q y. surfaces s q = Some y \<longrightarrow> ss_desktop_surface y \<noteq> d) \<and>
     desktop_surface_added d new_view new_shsurf wl_client s = Some s' \<longrightarrow>
       child_not_fullscreen s' \<and> ds_unshared s') \<and>
    (ds_user_data (dsurfaces s d) = Some p \<and> surfaces s p = Some x \<and> ss_parent x \<noteq> None \<and>
     desktop_surface_fullscreen_requested d True out s = Some s' \<longrightarrow>
       window_state (Some s') p = Some (ss_parent x, Fullscreen))"
proof -
  have A: "child_not_fullscreen s' \<and> ds_unshared s'"
    if a: "desktop_surface_set_parent d parent s = Some s'"
  proof -
    from a obtain q where
      "kiosk_shell_surface_set_parent q
        (case parent of None \<Rightarrow> None | Some d \<Rightarrow> ds_user_data (dsurfaces s d)) s = Some s'"
      by (cases "ds_user_data (dsurfaces s d)") (auto simp: desktop_surface_set_parent_def)
    then show ?thesis by (rule set_parent_invariant[OF assms])
  qed
  note B = requests_invariant[OF assms]
  have D: "window_state (Some s') p = Some (ss_parent x, Fullscreen)"
    if a: "ds_user_data (dsurfaces s d) = Some p \<and> surfaces s p = Some x \<and> ss_parent x \<noteq> None \<and>
     desktop_surface_fullscreen_requested d True out s = Some s'"
  proof -
    from a have fs: "kiosk_shell_surface_set_fullscreen p out s = Some s'"
      and x: "surfaces s p = Some x"
      by (auto simp: desktop_surface_fullscreen_requested_def)
    from set_fullscreen_result[OF fs x] have fr: "placement_frame p s s'"
      and par: "map_option ss_parent (surfaces s' p) = Some (ss_parent x)"
      and full: "ds_fullscreen (dsurfaces s' (ss_desktop_surface x))" by simp_all
    from fr x have "map_option ss_desktop_surface (surfaces s' p) = Some (ss_desktop_surface x)"
      by (simp add: placement_frame_def)
    with par full show ?thesis
      by (auto simp: window_state_def placement_of_def)
  qed
  from A B D keyboard_focus_invariant[OF assms] destroy_invariant[OF assms]
    surface_added_invariant[OF assms]
  show ?thesis by blast
qed

lemma window_state_violation:
  "window_state (Some s) p = Some (Some q, Fullscreen) \<Longrightarrow> \<not> child_not_fullscreen s"
  by (auto simp: window_state_def child_not_fullscreen_def split: option.splits)

lemma ex_shell_invariant: "child_not_fullscreen ex_shell" "ds_unshared ex_shell"
  by (auto simp: child_not_fullscreen_def ds_unshared_def ex_shell_def ex_root_def ex_child_def
      placement_of_def no_dsurface_def split: if_splits)

lemma ex_shell_child:
  "ds_user_data (dsurfaces ex_shell 11) = Some 11"
  "surfaces ex_shell 11 = Some ex_child"
  "ss_parent ex_child = Some 10"
  "ss_desktop_surface ex_child = 11"
  "ss_output ex_child = None"
  by (simp_all add: ex_shell_def ex_child_def no_dsurface_def)

theorem child_not_fullscreen_preserved_witness:
  "child_not_fullscreen ex_shell \<and> ds_unshared ex_shell \<and>
   desktop_surface_fullscreen_requested 11 False None ex_shell \<noteq> None \<and>
   child_not_fullscreen (the (desktop_surface_fullscreen_requested 11 False None ex_shell)) \<and>
   kiosk_shell_surface_destroy 10 ex_shell \<noteq> None \<and>
   child_not_fullscreen (the (kiosk_shell_surface_destroy 10 ex_shell)) \<and>
   ds_user_data (dsurfaces ex_shell 11) = Some 11 \<and> surfaces ex_shell 11 = Some ex_child \<and>
   ss_parent ex_child \<noteq> None \<and>
   desktop_surface_fullscreen_requested 11 True None ex_shell \<noteq> None \<and>
   window_state (Some (the (desktop_surface_fullscreen_requested 11 True None ex_shell))) 11 =
     Some (Some 10, Fullscreen)"
proof -
  have n: "desktop_surface_fullscreen_requested 11 False None ex_shell \<noteq> None"
    using set_normal_unbound[OF ex_shell_child(2,5) ex_best_child] ex_shell_child
    by (simp add: desktop_surface_fullscreen_requested_def)
  have f: "desktop_surface_fullscreen_requested 11 True None ex_shell \<noteq> None"
    using set_fullscreen_Some[OF ex_shell_child(2), of None "Some 1"] ex_best_child ex_shell_child
    by (simp add: desktop_surface_fullscreen_requested_def)
  have d: "kiosk_shell_surface_destroy 10 ex_shell \<noteq> None"
    using ex_destroy_commands by (auto simp: issued_def)
  from child_not_fullscreen_preserved[OF ex_shell_invariant,
      where d = 11 and out = None and fullscreen = False
        and s' = "the (desktop_surface_fullscreen_requested 11 False None ex_shell)"]
    n
  have 1: "child_not_fullscreen (the (desktop_surface_fullscreen_requested 11 False None ex_shell))"
    by auto
  from child_not_fullscreen_preserved[OF ex_shell_invariant,
      where d = 11 and out = None and p = 11 and x = ex_child
        and s' = "the (desktop_surface_fullscreen_requested 11 True None ex_shell)"]
    f ex_shell_child
  have 2: "window_state (Some (the (desktop_surface_fullscreen_requested 11 True None ex_shell))) 11 =
     Some (Some 10, Fullscreen)"
    by auto
  from child_not_fullscreen_preserved[OF ex_shell_invariant,
      where p = 10 and s' = "the (kiosk_shell_surface_destroy 10 ex_shell)"]
    d
  have 3: "child_not_fullscreen (the (kiosk_shell_surface_destroy 10 ex_shell))"
    by auto
  from n f d 1 2 3 ex_shell_invariant ex_shell_child show ?thesis by simp
qed

theorem child_not_fullscreen_counterexample:
  "child_not_fullscreen ex_shell \<and>
   desktop_surface_fullscreen_requested 11 True None ex_shell \<noteq> None \<and>
   \<not> child_not_fullscreen (the (desktop_surface_fullscreen_requested 11 True None ex_shell))"
proof -
  let ?t = "sized 11 (Some 1) (weston_desktop_surface_set_fullscreen 11 True
      (rebound 11 ex_child (Some 1) ex_shell))"
  have r: "desktop_surface_fullscreen_requested 11 True None ex_shell = Some ?t"
    using set_fullscreen_Some[OF ex_shell_child(2), of None "Some 1"] ex_best_child ex_shell_child
    by (simp add: desktop_surface_fullscreen_requested_def)
  have "window_state (Some ?t) 11 = Some (Some 10, Fullscreen)"
    using ex_shell_child by (simp add: window_state_def placement_of_def)
  then have "\<not> child_not_fullscreen ?t"
    by (rule window_state_violation)
  with r ex_shell_invariant(1) show ?thesis by simp
qed

end
